theory Spec2Isabelle
  imports Main "HOL-Library.Monad_Syntax" "HOL-Library.Char_ord" "HOL-Library.List_Lexorder"
begin

section \<open>Filename metadata extractor (src/data/process_database.py)\<close>

text \<open>
  Python strings are modelled as \<^typ>\<open>string\<close>, Python integers as \<^typ>\<open>int\<close>.
  The model reads a string as a sequence of ASCII characters: the class \<open>\d\<close> of the
  regular expression is the ten digits \<open>0\<close> to \<open>9\<close>, \<open>int\<close> of a digit string is
  its decimal value, and strings are ordered character by character. File names are
  matched as on a POSIX system, where upper and lower case differ.
\<close>

subsection \<open>The regular expression of \<open>parse_filename\<close>\<close>

definition is_digit :: "char \<Rightarrow> bool" where
  "is_digit c = (c \<in> set ''0123456789'')"

text \<open>A literal of the pattern: consume it from the front of the input, or fail.\<close>

fun lit :: "string \<Rightarrow> string \<Rightarrow> string option" where
  "lit [] s = Some s"
| "lit (p # ps) [] = None"
| "lit (p # ps) (c # cs) = (if p = c then lit ps cs else None)"

text \<open>\<open>(\d{4})\<close>: exactly four digits.\<close>

definition digits4 :: "string \<Rightarrow> (string \<times> string) option" where
  "digits4 s =
     (if 4 \<le> length s \<and> list_all is_digit (take 4 s) then Some (take 4 s, drop 4 s) else None)"

text \<open>\<open>([MF])\<close>: one character of the class.\<close>

definition gender_class :: "string \<Rightarrow> (char \<times> string) option" where
  "gender_class s =
     (case s of
        [] \<Rightarrow> None
      | c # cs \<Rightarrow> if c = CHR ''M'' \<or> c = CHR ''F'' then Some (c, cs) else None)"

text \<open>
  \<open>(\d+)\<close>: one or more digits, greedy. The group is followed by the literal \<open>_\<close>, which
  is no digit, so giving back digits can never make the rest of the pattern match: the
  longest run of digits is the only candidate (lemma \<open>re_match_complete\<close> below proves that
  no decomposition of the input is missed).
\<close>

definition digits1 :: "string \<Rightarrow> (string \<times> string) option" where
  "digits1 s =
     (if takeWhile is_digit s = [] then None
      else Some (takeWhile is_digit s, dropWhile is_digit s))"

text \<open>\<open>(WAV|wav)\<close>: the alternatives in their order.\<close>

definition extension_alt :: "string \<Rightarrow> (string \<times> string) option" where
  "extension_alt s =
     (case lit ''WAV'' s of
        Some r \<Rightarrow> Some (''WAV'', r)
      | None \<Rightarrow> (case lit ''wav'' s of Some r \<Rightarrow> Some (''wav'', r) | None \<Rightarrow> None))"

text \<open>
  \<open>re.match(r"G_(\d{4})_([MF])_(\d+)_st\.(WAV|wav)", filename)\<close>: the pattern is matched
  at the start of the string and nothing is required of what follows the match. The
  result holds the four groups; \<open>None\<close> is Python's \<open>None\<close>.
\<close>

definition re_match :: "string \<Rightarrow> (string \<times> char \<times> string \<times> string) option" where
  "re_match filename =
     do {
       s1 \<leftarrow> lit ''G_'' filename;
       (y, s2) \<leftarrow> digits4 s1;
       s3 \<leftarrow> lit ''_'' s2;
       (g, s4) \<leftarrow> gender_class s3;
       s5 \<leftarrow> lit ''_'' s4;
       (n, s6) \<leftarrow> digits1 s5;
       s7 \<leftarrow> lit ''_st.'' s6;
       (e, s8) \<leftarrow> extension_alt s7;
       Some (y, g, n, e)
     }"

subsection \<open>\<open>parse_filename\<close>\<close>

definition digit_val :: "char \<Rightarrow> int" where
  "digit_val c = int (of_char c) - 48"

text \<open>\<open>int(s)\<close> on a string of digits.\<close>

definition int_of_digits :: "string \<Rightarrow> int" where
  "int_of_digits s = foldl (\<lambda>a c. 10 * a + digit_val c) 0 s"

text \<open>
  The function returns a 4-tuple of optional values
  \<open>(speaker, gender, age, birth_year)\<close>, as its annotation says.
\<close>

definition parse_filename ::
  "string \<Rightarrow> string option \<times> string option \<times> int option \<times> int option" where
  "parse_filename filename =
     (case re_match filename of
        None \<Rightarrow> (None, None, None, None)
      | Some (y, gender_code, id_number, e) \<Rightarrow>
          (let birth_year = int_of_digits y;
               speaker = [gender_code] @ ''_'' @ id_number;
               gender = (if gender_code = CHR ''M'' then ''male'' else ''female'');
               current_year = 2025;
               age = current_year - birth_year
           in (Some speaker, Some gender, Some age, Some birth_year)))"

subsection \<open>The filename grammar, stated on its own\<close>

text \<open>
  A name is accepted by the grammar when it starts with a string built from four groups:
  a year of four digits, a gender code \<open>M\<close> or \<open>F\<close>, an id of one or more digits and the
  extension \<open>WAV\<close> or \<open>wav\<close>.
\<close>

definition valid_groups :: "string \<Rightarrow> char \<Rightarrow> string \<Rightarrow> string \<Rightarrow> bool" where
  "valid_groups y g n e =
     (length y = 4 \<and> list_all is_digit y \<and> (g = CHR ''M'' \<or> g = CHR ''F'') \<and>
      n \<noteq> [] \<and> list_all is_digit n \<and> (e = ''WAV'' \<or> e = ''wav''))"

definition mk_name :: "string \<Rightarrow> char \<Rightarrow> string \<Rightarrow> string \<Rightarrow> string" where
  "mk_name y g n e = ''G_'' @ y @ ''_'' @ [g] @ ''_'' @ n @ ''_st.'' @ e"

definition matches_grammar :: "string \<Rightarrow> bool" where
  "matches_grammar filename =
     (\<exists>y g n e rest. valid_groups y g n e \<and> filename = mk_name y g n e @ rest)"

subsection \<open>Files, diagnostics and errors\<close>

text \<open>
  What \<open>stat\<close> gives for a path: no such file, an error that \<open>Path.exists\<close> does not
  swallow (\<open>PermissionError\<close>: a directory on the way may not be searched), or the file.
\<close>

datatype 'a stat_result = Absent | Denied | Present 'a

text \<open>
  What opening and reading a file gives: its text, or an exception (\<open>Unreadable\<close>: no
  permission, not valid UTF-8, a directory).
\<close>

datatype file_content = Text string | Unreadable

text \<open>
  A directory has the names \<open>scandir\<close> lists, in the order the operating system gives
  them, and for every name what \<open>stat\<close> on that name in the directory gives. The file
  system gives for the path of a folder what \<open>stat\<close> gives there.
\<close>

record directory =
  listing :: "string list"
  status :: "string \<Rightarrow> file_content stat_result"

type_synonym file_system = "string \<Rightarrow> directory stat_result"

text \<open>The lines the program prints; the text of a caught exception is left out.\<close>

datatype diag =
    FoundAudioFiles nat
  | CouldNotParse string
  | NoTranscription string
  | CouldNotRead string

text \<open>The exceptions that end a run; \<open>PermissionError\<close> carries the path.\<close>

datatype py_error =
    FileNotFoundError string
  | PermissionError string
  | KeyError "string list"
  | MergeError

subsection \<open>Paths\<close>

text \<open>
  \<open>Path(s)\<close> on a POSIX system: the root is \<open>/\<close> (or \<open>//\<close> for exactly two leading
  slashes), the parts are the components between slashes, without the empty ones and
  without \<open>.\<close>; \<open>..\<close> is kept.
\<close>

record pure_path =
  root :: string
  parts :: "string list"

fun split_sep :: "string \<Rightarrow> string list" where
  "split_sep [] = [[]]"
| "split_sep (c # cs) =
     (if c = CHR ''/'' then [] # split_sep cs
      else (case split_sep cs of [] \<Rightarrow> [[c]] | w # ws \<Rightarrow> (c # w) # ws))"

definition path_root :: "string \<Rightarrow> string" where
  "path_root s =
     (let n = length (takeWhile (\<lambda>c. c = CHR ''/'') s)
      in if n = 0 then [] else if n = 2 then ''//'' else ''/'')"

definition Path :: "string \<Rightarrow> pure_path" where
  "Path s = \<lparr>root = path_root s, parts = filter (\<lambda>x. x \<noteq> [] \<and> x \<noteq> ''.'') (split_sep s)\<rparr>"

fun join_sep :: "string list \<Rightarrow> string" where
  "join_sep [] = []"
| "join_sep [x] = x"
| "join_sep (x # y # ys) = x @ ''/'' @ join_sep (y # ys)"

text \<open>\<open>str(p)\<close>\<close>

definition path_str :: "pure_path \<Rightarrow> string" where
  "path_str p = (if root p = [] \<and> parts p = [] then ''.'' else root p @ join_sep (parts p))"

text \<open>\<open>p / name\<close> for the name of an entry of the directory, and \<open>p.parent\<close>.\<close>

definition child :: "pure_path \<Rightarrow> string \<Rightarrow> pure_path" where
  "child p name = p\<lparr>parts := parts p @ [name]\<rparr>"

definition parent :: "pure_path \<Rightarrow> pure_path" where
  "parent p = p\<lparr>parts := butlast (parts p)\<rparr>"

text \<open>
  \<open>p.relative_to(q)\<close> where \<open>q\<close> has the root of \<open>p\<close> and its parts start the parts of
  \<open>p\<close>, as is the case for a path and the parent of its parent; \<open>ValueError\<close>, raised
  otherwise, cannot occur there.
\<close>

definition relative_to :: "pure_path \<Rightarrow> pure_path \<Rightarrow> pure_path" where
  "relative_to p q = \<lparr>root = [], parts = drop (length (parts q)) (parts p)\<rparr>"

definition ends_with :: "string \<Rightarrow> string \<Rightarrow> bool" where
  "ends_with suf s = (length suf \<le> length s \<and> drop (length s - length suf) s = suf)"

text \<open>
  \<open>data_path.glob("*" + suf)\<close>: the names listed that end with \<open>suf\<close>. The match is
  case-sensitive (POSIX), a leading dot is not special, and no file is looked at.
\<close>

definition glob :: "string \<Rightarrow> directory \<Rightarrow> string list" where
  "glob suf d = filter (ends_with suf) (listing d)"

text \<open>
  \<open>PurePath.suffix\<close>: the name from its last dot on, unless that dot is the first or
  the last character of the name.
\<close>

definition path_suffix :: "string \<Rightarrow> string" where
  "path_suffix name =
     (let t = rev (takeWhile (\<lambda>c. c \<noteq> CHR ''.'') (rev name))
      in if CHR ''.'' \<in> set name \<and> t \<noteq> [] \<and> length t + 1 < length name
         then CHR ''.'' # t else [])"

text \<open>\<open>with_suffix\<close> changes the last part of a path, here given by its name.\<close>

definition with_suffix :: "string \<Rightarrow> string \<Rightarrow> string" where
  "with_suffix name suf = take (length name - length (path_suffix name)) name @ suf"

text \<open>
  \<open>str(audio_file.relative_to(data_path.parent))\<close> for the file \<open>data_path / filename\<close>,
  and \<open>str(data_path / filename)\<close>.
\<close>

definition relative_to_parent :: "string \<Rightarrow> string \<Rightarrow> string" where
  "relative_to_parent data_folder filename =
     (let data_path = Path data_folder;
          audio_file = child data_path filename
      in path_str (relative_to audio_file (parent data_path)))"

definition path_join :: "string \<Rightarrow> string \<Rightarrow> string" where
  "path_join data_folder filename = path_str (child (Path data_folder) filename)"

subsection \<open>\<open>read_transcription\<close>\<close>

definition is_space :: "char \<Rightarrow> bool" where
  "is_space c = (of_char c \<in> {9, 10, 11, 12, 13, 28, 29, 30, 31, 32 :: nat})"

text \<open>\<open>str.strip()\<close>.\<close>

definition strip :: "string \<Rightarrow> string" where
  "strip s = rev (dropWhile is_space (rev (dropWhile is_space s)))"

text \<open>
  The function is given the path and what reading the file gives. Every exception is
  caught: a warning is printed and the empty string returned.
\<close>

definition read_transcription :: "string \<Rightarrow> file_content \<Rightarrow> diag list \<times> string" where
  "read_transcription txt_path c =
     (case c of
        Text content \<Rightarrow> ([], strip content)
      | Unreadable \<Rightarrow> ([CouldNotRead txt_path], []))"

subsection \<open>Data frames\<close>

text \<open>
  A cell holds a string, an integer or nothing (\<open>None\<close>, \<open>NaN\<close>). A frame has its column
  labels, its rows (each aligned with the labels) and its index: \<open>None\<close> is the default
  index \<open>0, 1, \<dots>\<close>, \<open>Some (name, values)\<close> a column that was made the index.
\<close>

datatype cell = Str string | Num int | Null

record 'v frame =
  columns :: "string list"
  rows :: "'v list list"
  index_col :: "(string \<times> 'v list) option"

definition cell_at :: "string list \<Rightarrow> 'v list \<Rightarrow> string \<Rightarrow> 'v option" where
  "cell_at cols r k = map_of (zip cols r) k"

text \<open>
  The frames the programs build or read are rectangular, with distinct labels
  (\<open>read_csv\<close> renames a label that occurs twice). In such a frame every label has a
  cell in every row, which is what \<open>the\<close> reads below.
\<close>

definition wf_frame :: "'v frame \<Rightarrow> bool" where
  "wf_frame df =
     (distinct (columns df) \<and> list_all (\<lambda>r. length r = length (columns df)) (rows df))"

definition first_seen :: "'a list \<Rightarrow> 'a list" where
  "first_seen xs = fold (\<lambda>x acc. if x \<in> set acc then acc else acc @ [x]) xs []"

text \<open>
  \<open>pd.DataFrame(records)\<close> on a list of dictionaries: the columns are the keys in the
  order they are first seen, a key a record does not have gives an empty cell.
\<close>

definition DataFrame :: "(string \<times> cell) list list \<Rightarrow> cell frame" where
  "DataFrame records =
     (let cols = first_seen (concat (map (map fst) records))
      in \<lparr>columns = cols,
          rows = map (\<lambda>r. map (\<lambda>k. case map_of r k of Some v \<Rightarrow> v | None \<Rightarrow> Null) cols) records,
          index_col = None\<rparr>)"

text \<open>\<open>df[name] = v\<close> for a scalar \<open>v\<close>: the column is overwritten, or appended.\<close>

definition set_column :: "string \<Rightarrow> 'v \<Rightarrow> 'v frame \<Rightarrow> 'v frame" where
  "set_column name v df =
     (if name \<in> set (columns df)
      then df\<lparr>rows := map (\<lambda>r. map (\<lambda>(k, x). if k = name then v else x) (zip (columns df) r))
                         (rows df)\<rparr>
      else df\<lparr>columns := columns df @ [name], rows := map (\<lambda>r. r @ [v]) (rows df)\<rparr>)"

text \<open>
  \<open>df[ks]\<close> for a list of labels: the columns in the order of \<open>ks\<close>, or \<open>KeyError\<close>
  naming the labels the frame does not have.
\<close>

definition select_columns :: "string list \<Rightarrow> 'v frame \<Rightarrow> py_error + 'v frame" where
  "select_columns ks df =
     (let missing = filter (\<lambda>k. k \<notin> set (columns df)) ks
      in if missing \<noteq> [] then Inl (KeyError missing)
         else Inr (df\<lparr>columns := ks,
                      rows := map (\<lambda>r. map (\<lambda>k. the (cell_at (columns df) r k)) ks) (rows df)\<rparr>))"

text \<open>\<open>df.set_index(name)\<close>: the column becomes the index and leaves the columns.\<close>

definition set_index :: "string \<Rightarrow> 'v frame \<Rightarrow> py_error + 'v frame" where
  "set_index name df =
     (if name \<notin> set (columns df) then Inl (KeyError [name])
      else Inr \<lparr>columns = filter (\<lambda>k. k \<noteq> name) (columns df),
                rows = map (\<lambda>r. map snd (filter (\<lambda>(k, x). k \<noteq> name) (zip (columns df) r)))
                         (rows df),
                index_col = Some (name, map (\<lambda>r. the (cell_at (columns df) r name)) (rows df))\<rparr>)"

text \<open>The header line of the CSV file: the index label, when there is one, then the columns.\<close>

definition header :: "'v frame \<Rightarrow> string list" where
  "header df = (case index_col df of None \<Rightarrow> columns df | Some (name, vs) \<Rightarrow> name # columns df)"

subsection \<open>\<open>process_database\<close>\<close>

definition str_cell :: "string option \<Rightarrow> cell" where
  "str_cell x = (case x of None \<Rightarrow> Null | Some s \<Rightarrow> Str s)"

definition int_cell :: "int option \<Rightarrow> cell" where
  "int_cell x = (case x of None \<Rightarrow> Null | Some i \<Rightarrow> Num i)"

text \<open>
  One pass of the loop over the audio files: the lines it prints, and either the
  exception that ends the run or the record it appends, \<open>None\<close> when the file is skipped
  by \<open>continue\<close>. \<open>txt_file.exists()\<close> is called outside any \<open>try\<close>: when \<open>stat\<close> is
  denied its \<open>PermissionError\<close> ends the run.
\<close>

definition loop_body ::
  "string \<Rightarrow> directory \<Rightarrow> string \<Rightarrow> diag list \<times> (py_error + (string \<times> cell) list option)" where
  "loop_body data_folder d filename =
     (case parse_filename filename of
        (speaker, gender, age, birth_year) \<Rightarrow>
          if speaker = None then ([CouldNotParse filename], Inr None)
          else
            let txt_file = with_suffix filename ''.txt''
            in case (case status d txt_file of
                       Denied \<Rightarrow> Inl (PermissionError (path_join data_folder txt_file))
                     | Present c \<Rightarrow> Inr (read_transcription (path_join data_folder txt_file) c)
                     | Absent \<Rightarrow> Inr ([NoTranscription filename], [])) of
                 Inl e \<Rightarrow> ([], Inl e)
               | Inr (out, transcription) \<Rightarrow>
                   (out,
                    Inr (Some [(''file'', Str (relative_to_parent data_folder filename)),
                               (''speaker'', str_cell speaker),
                               (''gender'', str_cell gender),
                               (''age'', int_cell age),
                               (''birth_year'', int_cell birth_year),
                               (''transcription'', Str transcription)])))"

text \<open>
  The loop: the state is what was printed so far and the list \<open>records\<close>; an exception
  ends it.
\<close>

fun process_files ::
  "string \<Rightarrow> directory \<Rightarrow> string list \<Rightarrow> diag list \<times> (string \<times> cell) list list \<Rightarrow>
   diag list \<times> (py_error + (string \<times> cell) list list)" where
  "process_files data_folder d [] (out, records) = (out, Inr records)"
| "process_files data_folder d (filename # files) (out, records) =
     (case loop_body data_folder d filename of
        (ds, Inl e) \<Rightarrow> (out @ ds, Inl e)
      | (ds, Inr None) \<Rightarrow> process_files data_folder d files (out @ ds, records)
      | (ds, Inr (Some record)) \<Rightarrow>
          process_files data_folder d files (out @ ds, records @ [record]))"

definition column_order :: "string list" where
  "column_order =
     [''file'', ''speaker'', ''gender'', ''age'', ''birth_year'', ''emotion'', ''transcription'']"

text \<open>
  The result is what was printed and either the exception that ended the run or the
  frame returned. \<open>sorted\<close> orders the paths of one folder by their names.
\<close>

definition process_database :: "file_system \<Rightarrow> string \<Rightarrow> diag list \<times> (py_error + cell frame)" where
  "process_database fs data_folder =
     (case fs data_folder of
        Absent \<Rightarrow> ([], Inl (FileNotFoundError data_folder))
      | Denied \<Rightarrow> ([], Inl (PermissionError data_folder))
      | Present d \<Rightarrow>
          let audio_files = glob ''.WAV'' d @ glob ''.wav'' d
          in case process_files data_folder d (sort audio_files)
                    ([FoundAudioFiles (length audio_files)], []) of
               (out, Inl e) \<Rightarrow> (out, Inl e)
             | (out, Inr records) \<Rightarrow>
                 let df = DataFrame records;
                     df = set_column ''emotion'' (Str ''unknown'') df
                 in (out,
                     case select_columns column_order df of
                       Inl e \<Rightarrow> Inl e
                     | Inr df \<Rightarrow> set_index ''file'' df))"

section \<open>Table merger (src/tag_data/merge_predictions.py)\<close>

text \<open>
  The script reads two CSV files into frames, merges them and writes the result. The
  model takes the two frames as read and returns the frame written, or the exception
  that ends the script before anything is written. The type of the cells is left open:
  the merge only compares them, and a key column is taken to hold values of one kind in
  both frames. A missing value is a value like any other: \<open>pd.merge\<close> matches missing
  keys with each other. The lines printed (shapes and column lists) are left out, and
  with them the list \<open>all_predicted_unique\<close>, which is only printed.
\<close>

definition common_cols :: "string list" where
  "common_cols =
     [''file'', ''start'', ''end'', ''speaker'', ''gender'', ''age'', ''birth_year'',
      ''duration'', ''emotion'', ''text'']"

text \<open>\<open>[col for col in df.columns if col not in common_cols]\<close>\<close>

definition unique_cols :: "'v frame \<Rightarrow> string list" where
  "unique_cols df = filter (\<lambda>col. col \<notin> set common_cols) (columns df)"

definition key_tuple :: "string list \<Rightarrow> string list \<Rightarrow> 'v list \<Rightarrow> 'v option list" where
  "key_tuple on cols r = map (cell_at cols r) on"

text \<open>The cells of a row of the right frame outside the key columns.\<close>

definition non_key_cells :: "string list \<Rightarrow> string list \<Rightarrow> 'v list \<Rightarrow> 'v list" where
  "non_key_cells on cols r = map snd (filter (\<lambda>(k, x). k \<notin> set on) (zip cols r))"

text \<open>
  \<open>pd.merge(left, right, on=on, how="inner")\<close> on frames with distinct labels. A key
  that one of the frames does not have raises \<open>KeyError\<close>. The key columns of the right
  frame are dropped; a label that the left frame and the rest of the right frame both
  have gets the suffix \<open>_x\<close> on the left and \<open>_y\<close> on the right, and \<open>MergeError\<close> is
  raised when that gives one side the same label twice (pandas 2). The result has the
  columns of the left frame, then the columns left of the right frame; its rows are
  the pairs of a left row and a right row with the same key tuple, in the order of the
  left frame.
\<close>

definition pd_merge :: "'v frame \<Rightarrow> 'v frame \<Rightarrow> string list \<Rightarrow> py_error + 'v frame" where
  "pd_merge left right on =
     (let missing = filter (\<lambda>k. k \<notin> set (columns left) \<or> k \<notin> set (columns right)) on
      in if missing \<noteq> [] then Inl (KeyError [hd missing])
         else
           let rcols = filter (\<lambda>c. c \<notin> set on) (columns right);
               overlap = filter (\<lambda>c. c \<in> set rcols) (columns left);
               llabels = map (\<lambda>c. if c \<in> set overlap then c @ ''_x'' else c) (columns left);
               rlabels = map (\<lambda>c. if c \<in> set overlap then c @ ''_y'' else c) rcols
           in if \<not> distinct llabels \<or> \<not> distinct rlabels then Inl MergeError
              else Inr \<lparr>columns = llabels @ rlabels,
                        rows = concat (map (\<lambda>l. map (\<lambda>r. l @ non_key_cells on (columns right) r)
                                                    (filter (\<lambda>r. key_tuple on (columns right) r
                                                                  = key_tuple on (columns left) l)
                                                            (rows right)))
                                           (rows left)),
                        index_col = None\<rparr>)"

text \<open>The script, from the two frames read to the frame written.\<close>

definition merge_predictions :: "'v frame \<Rightarrow> 'v frame \<Rightarrow> py_error + 'v frame" where
  "merge_predictions all_predicted segmented =
     (let segmented_unique = unique_cols segmented
      in case select_columns (common_cols @ segmented_unique) segmented of
           Inl e \<Rightarrow> Inl e
         | Inr right \<Rightarrow> pd_merge all_predicted right common_cols)"

section \<open>Reading the tables\<close>

text \<open>
  The lines of a frame as \<open>to_csv\<close> writes them: the value of the index, when a column
  was made the index, then the cells of the row. They are aligned with \<open>header\<close>.
\<close>

definition csv_lines :: "'v frame \<Rightarrow> 'v list list" where
  "csv_lines df =
     (case index_col df of
        None \<Rightarrow> rows df
      | Some (name, vs) \<Rightarrow> map (\<lambda>(v, r). v # r) (zip vs (rows df)))"

text \<open>
  The line of the extractor's table for one record of the loop: the values of the
  record in the column order, with the filler for \<open>emotion\<close>.
\<close>

definition table_line :: "(string \<times> cell) list \<Rightarrow> cell list" where
  "table_line record =
     map (\<lambda>k. case map_of ((''emotion'', Str ''unknown'') # record) k of
                 Some v \<Rightarrow> v | None \<Rightarrow> Null)
         column_order"

text \<open>The audio files of a directory, in the order the loop visits them.\<close>

definition audio_files :: "directory \<Rightarrow> string list" where
  "audio_files d = sort (glob ''.WAV'' d @ glob ''.wav'' d)"

text \<open>
  The pass of the loop for this file ends the run: the name parses and \<open>stat\<close> on its
  transcript is denied.
\<close>

definition denied :: "directory \<Rightarrow> string \<Rightarrow> bool" where
  "denied d filename =
     (matches_grammar filename \<and> status d (with_suffix filename ''.txt'') = Denied)"

text \<open>
  The step of the loop body that looks for the transcript of an audio file, when
  \<open>stat\<close> is not denied: what it prints and the transcription it gives (lemma
  \<open>loop_body_parsed\<close> relates it to the loop).
\<close>

definition transcript :: "string \<Rightarrow> directory \<Rightarrow> string \<Rightarrow> diag list \<times> string" where
  "transcript data_folder d filename =
     (case status d (with_suffix filename ''.txt'') of
        Present c \<Rightarrow> read_transcription (path_join data_folder (with_suffix filename ''.txt'')) c
      | _ \<Rightarrow> ([NoTranscription filename], []))"

text \<open>The record a pass of the loop appends, if any.\<close>

definition loop_record :: "string \<Rightarrow> directory \<Rightarrow> string \<Rightarrow> (string \<times> cell) list option" where
  "loop_record data_folder d filename =
     (case snd (loop_body data_folder d filename) of Inl e \<Rightarrow> None | Inr r \<Rightarrow> r)"


text \<open>The shape of the dictionaries the loop appends to \<open>records\<close>.\<close>

definition is_record :: "(string \<times> cell) list \<Rightarrow> bool" where
  "is_record r =
     (\<exists>f s g a b t.
        r = [(''file'', f), (''speaker'', s), (''gender'', g), (''age'', a), (''birth_year'', b),
             (''transcription'', t)])"

text \<open>
  The line the table is expected to hold for an audio file whose name parses (lemma
  \<open>process_database_table\<close> proves that these are the lines of the table).
\<close>

definition file_line :: "string \<Rightarrow> directory \<Rightarrow> string \<Rightarrow> cell list" where
  "file_line data_folder d filename =
     (case parse_filename filename of
        (speaker, gender, age, birth_year) \<Rightarrow>
          [Str (relative_to_parent data_folder filename), str_cell speaker, str_cell gender,
           int_cell age, int_cell birth_year, Str ''unknown'',
           Str (snd (transcript data_folder d filename))])"

section \<open>Example inputs\<close>

text \<open>A directory given by its files, all of which \<open>stat\<close> can look at.\<close>

definition dir_of :: "(string \<times> file_content) list \<Rightarrow> directory" where
  "dir_of entries =
     \<lparr>listing = map fst entries,
      status = (\<lambda>name. case map_of entries name of None \<Rightarrow> Absent | Some c \<Rightarrow> Present c)\<rparr>"

text \<open>
  A data folder with three recordings that follow the naming scheme (one with a
  transcript, one without, one whose transcript cannot be read) and one that does not.
\<close>

definition example_dir :: directory where
  "example_dir =
     dir_of [(''G_1991_M_26_st.WAV'', Unreadable),
             (''G_1991_M_26_st.txt'', Text '' hello world ''),
             (''random_file.WAV'', Unreadable),
             (''G_1988_F_07_st.wav'', Unreadable),
             (''G_2000_F_1_st.wav'', Unreadable),
             (''G_2000_F_1_st.txt'', Unreadable)]"

definition example_fs :: file_system where
  "example_fs p = (if p = ''data'' then Present example_dir else Absent)"

text \<open>A file system whose data folder holds a text file and no recording.\<close>

definition no_audio_fs :: file_system where
  "no_audio_fs p = (if p = ''data'' then Present (dir_of [(''notes.txt'', Text ''hello'')]) else Absent)"

text \<open>
  A data folder that may be listed and not searched: it holds one recording and no
  transcript, and \<open>stat\<close> is denied on every name in it.
\<close>

definition locked_dir :: directory where
  "locked_dir = \<lparr>listing = [''G_1988_F_07_st.wav''], status = (\<lambda>name. Denied)\<rparr>"

definition locked_fs :: file_system where
  "locked_fs p = (if p = ''data'' then Present locked_dir else Absent)"

text \<open>The table the extractor returns for the first example.\<close>

definition example_table :: "cell frame" where
  "example_table =
     \<lparr>columns = [''speaker'', ''gender'', ''age'', ''birth_year'', ''emotion'', ''transcription''],
      rows = [[Str ''F_07'', Str ''female'', Num 37, Num 1988, Str ''unknown'', Str []],
              [Str ''M_26'', Str ''male'', Num 34, Num 1991, Str ''unknown'', Str ''hello world''],
              [Str ''F_1'', Str ''female'', Num 25, Num 2000, Str ''unknown'', Str []]],
      index_col = Some (''file'', [Str ''data/G_1988_F_07_st.wav'', Str ''data/G_1991_M_26_st.WAV'',
                                  Str ''data/G_2000_F_1_st.wav''])\<rparr>"

section \<open>Reading the merged table\<close>

text \<open>
  The labels of the merged table: the columns of the left frame, then the columns of
  the right frame outside the keys, with the suffixes of \<open>pd.merge\<close> on a label that both
  frames have (lemma \<open>merge_predictions_ok\<close> proves that these are the columns).
\<close>

definition left_labels :: "'v frame \<Rightarrow> 'v frame \<Rightarrow> string list" where
  "left_labels all_predicted segmented =
     map (\<lambda>c. if c \<in> set (unique_cols segmented) then c @ ''_x'' else c) (columns all_predicted)"

definition right_labels :: "'v frame \<Rightarrow> 'v frame \<Rightarrow> string list" where
  "right_labels all_predicted segmented =
     map (\<lambda>c. if c \<in> set (columns all_predicted) then c @ ''_y'' else c) (unique_cols segmented)"

text \<open>The rows of an inner join on the key columns, in the order of the left frame.\<close>

definition joined_rows :: "'v frame \<Rightarrow> 'v frame \<Rightarrow> 'v list list" where
  "joined_rows all_predicted segmented =
     concat (map (\<lambda>l. map (\<lambda>r. l @ non_key_cells common_cols (columns segmented) r)
                          (filter (\<lambda>r. key_tuple common_cols (columns segmented) r
                                        = key_tuple common_cols (columns all_predicted) l)
                                  (rows segmented)))
                 (rows all_predicted))"

section \<open>Example tables for the merger\<close>

text \<open>
  Two tables with the ten key columns and one column of their own each. The first two
  rows of each have the same key tuple; the third rows have key tuples of their own.
\<close>

definition left_table :: "nat frame" where
  "left_table =
     \<lparr>columns = common_cols @ [''linguistic''],
      rows = [replicate 10 0 @ [1], replicate 10 0 @ [2], replicate 10 5 @ [3]],
      index_col = None\<rparr>"

definition right_table :: "nat frame" where
  "right_table =
     \<lparr>columns = ''acoustic'' # common_cols,
      rows = [7 # replicate 10 0, 8 # replicate 10 0, 9 # replicate 10 6],
      index_col = None\<rparr>"

text \<open>The same key tuple twice in each table, and nothing else.\<close>

definition dup_left :: "nat frame" where
  "dup_left = left_table\<lparr>rows := take 2 (rows left_table)\<rparr>"

definition dup_right :: "nat frame" where
  "dup_right = right_table\<lparr>rows := take 2 (rows right_table)\<rparr>"

text \<open>Tables without the key column \<open>text\<close>, and without the key column \<open>file\<close>.\<close>

definition no_text_table :: "nat frame" where
  "no_text_table =
     \<lparr>columns = butlast common_cols @ [''linguistic''],
      rows = [replicate 9 0 @ [1]],
      index_col = None\<rparr>"

definition no_file_table :: "nat frame" where
  "no_file_table =
     \<lparr>columns = ''acoustic'' # tl common_cols,
      rows = [7 # replicate 9 0],
      index_col = None\<rparr>"

text \<open>The table the script writes for \<open>dup_left\<close> and \<open>dup_right\<close>.\<close>

definition dup_merged :: "nat frame" where
  "dup_merged =
     \<lparr>columns = common_cols @ [''linguistic'', ''acoustic''],
      rows = [replicate 10 0 @ [1, 7], replicate 10 0 @ [1, 8],
              replicate 10 0 @ [2, 7], replicate 10 0 @ [2, 8]],
      index_col = None\<rparr>"

section \<open>Properties of the parser\<close>

lemma lit_append: "lit p (p @ s) = Some s"
  by (induction p) auto

lemma lit_Some: "lit p s = Some r \<Longrightarrow> s = p @ r"
  by (induction p s rule: lit.induct) (auto split: if_splits)

lemma takeWhile_digits_stop:
  "list_all is_digit n \<Longrightarrow> \<not> is_digit c \<Longrightarrow> takeWhile is_digit (n @ c # s) = n"
  by (induction n) auto

lemma dropWhile_digits_stop:
  "list_all is_digit n \<Longrightarrow> \<not> is_digit c \<Longrightarrow> dropWhile is_digit (n @ c # s) = c # s"
  by (induction n) auto

lemma underscore_no_digit: "\<not> is_digit CHR ''_''"
  by (simp add: is_digit_def)

lemma digits1_complete:
  "n \<noteq> [] \<Longrightarrow> list_all is_digit n \<Longrightarrow> digits1 (n @ CHR ''_'' # s) = Some (n, CHR ''_'' # s)"
  by (simp add: digits1_def takeWhile_digits_stop dropWhile_digits_stop underscore_no_digit)

lemma digits1_Some:
  "digits1 s = Some (n, r) \<Longrightarrow> n \<noteq> [] \<and> list_all is_digit n \<and> s = n @ r"
  by (auto simp: digits1_def list_all_iff split: if_splits dest: set_takeWhileD)

lemma digits4_complete:
  "length y = 4 \<Longrightarrow> list_all is_digit y \<Longrightarrow> digits4 (y @ s) = Some (y, s)"
  by (simp add: digits4_def)

lemma digits4_Some:
  "digits4 s = Some (y, r) \<Longrightarrow> length y = 4 \<and> list_all is_digit y \<and> s = y @ r"
  by (auto simp: digits4_def split: if_splits)

lemma gender_class_Some:
  "gender_class s = Some (g, r) \<Longrightarrow> (g = CHR ''M'' \<or> g = CHR ''F'') \<and> s = g # r"
  by (auto simp: gender_class_def split: list.splits if_splits)

lemma extension_alt_Some:
  "extension_alt s = Some (e, r) \<Longrightarrow> (e = ''WAV'' \<or> e = ''wav'') \<and> s = e @ r"
  by (auto simp: extension_alt_def split: option.splits dest: lit_Some)

lemma extension_alt_complete:
  "e = ''WAV'' \<or> e = ''wav'' \<Longrightarrow> extension_alt (e @ s) = Some (e, s)"
  by (auto simp: extension_alt_def)

text \<open>
  The matcher finds every name that starts with a string of the grammar, whatever
  follows it, and returns the groups of that string.
\<close>

lemma re_match_complete:
  assumes "valid_groups y g n e"
  shows "re_match (mk_name y g n e @ rest) = Some (y, g, n, e)"
proof -
  from assms have y: "length y = 4" "list_all is_digit y"
    and g: "g = CHR ''M'' \<or> g = CHR ''F''"
    and n: "n \<noteq> []" "list_all is_digit n"
    and e: "e = ''WAV'' \<or> e = ''wav''"
    by (simp_all add: valid_groups_def)
  have 1: "lit ''G_'' (mk_name y g n e @ rest)
             = Some (y @ ''_'' @ [g] @ ''_'' @ n @ ''_st.'' @ e @ rest)"
    by (simp add: mk_name_def)
  have 2: "digits4 (y @ ''_'' @ [g] @ ''_'' @ n @ ''_st.'' @ e @ rest)
             = Some (y, ''_'' @ [g] @ ''_'' @ n @ ''_st.'' @ e @ rest)"
    using y by (rule digits4_complete)
  have 3: "gender_class ([g] @ ''_'' @ n @ ''_st.'' @ e @ rest)
             = Some (g, ''_'' @ n @ ''_st.'' @ e @ rest)"
    using g by (auto simp: gender_class_def)
  have 4: "digits1 (n @ ''_st.'' @ e @ rest) = Some (n, ''_st.'' @ e @ rest)"
    using digits1_complete [OF n] by simp
  have 5: "extension_alt (e @ rest) = Some (e, rest)"
    using e by (rule extension_alt_complete)
  show ?thesis
    unfolding re_match_def using 1 2 3 4 5 by simp
qed

text \<open>What the matcher returns are the groups of a string of the grammar at the start.\<close>

lemma re_match_sound:
  assumes "re_match s = Some (y, g, n, e)"
  shows "valid_groups y g n e \<and> (\<exists>rest. s = mk_name y g n e @ rest)"
  using assms unfolding re_match_def valid_groups_def mk_name_def
  by (auto simp: bind_eq_Some_conv
           dest!: lit_Some digits4_Some gender_class_Some digits1_Some extension_alt_Some)

lemma re_match_iff: "re_match s \<noteq> None \<longleftrightarrow> matches_grammar s"
proof
  assume "re_match s \<noteq> None"
  then obtain y g n e where "re_match s = Some (y, g, n, e)" by auto
  from re_match_sound [OF this] show "matches_grammar s"
    unfolding matches_grammar_def by blast
next
  assume "matches_grammar s"
  then show "re_match s \<noteq> None"
    unfolding matches_grammar_def using re_match_complete by fastforce
qed

lemma parse_filename_no_match:
  "\<not> matches_grammar filename \<Longrightarrow> parse_filename filename = (None, None, None, None)"
proof -
  assume "\<not> matches_grammar filename"
  then have "re_match filename = None"
    using re_match_iff [of filename] by blast
  then show ?thesis by (simp add: parse_filename_def)
qed

lemma parse_filename_groups:
  assumes "valid_groups y g n e"
  shows "parse_filename (mk_name y g n e @ rest) =
           (Some ([g] @ ''_'' @ n), Some (if g = CHR ''M'' then ''male'' else ''female''),
            Some (2025 - int_of_digits y), Some (int_of_digits y))"
  by (simp add: parse_filename_def re_match_complete [OF assms] Let_def)

lemma parse_filename_match:
  assumes "matches_grammar filename"
  shows "\<exists>s g a b. parse_filename filename = (Some s, Some g, Some a, Some b)"
proof -
  from assms obtain y g n e rest where "valid_groups y g n e" "filename = mk_name y g n e @ rest"
    unfolding matches_grammar_def by blast
  then show ?thesis using parse_filename_groups by blast
qed

text \<open>The value \<open>int\<close> gives for the four digits of the year.\<close>

lemma int_of_digits4:
  "int_of_digits [a, b, c, d] = 1000 * digit_val a + 100 * digit_val b + 10 * digit_val c + digit_val d"
  by (simp add: int_of_digits_def)

lemma digit_val_range: "is_digit c \<Longrightarrow> 0 \<le> digit_val c \<and> digit_val c \<le> 9"
  by (auto simp: is_digit_def digit_val_def)

lemma birth_year_range:
  assumes "length y = 4" "list_all is_digit y"
  shows "0 \<le> int_of_digits y \<and> int_of_digits y \<le> 9999"
proof -
  from assms(1) obtain a b c d where y: "y = [a, b, c, d]"
    by (auto simp: length_Suc_conv eval_nat_numeral)
  with assms(2) have "is_digit a" "is_digit b" "is_digit c" "is_digit d" by simp_all
  from this [THEN digit_val_range] show ?thesis
    unfolding y int_of_digits4 by linarith
qed

section \<open>Properties of the loop over the audio files\<close>

lemma loop_body_no_match:
  "\<not> matches_grammar filename \<Longrightarrow>
   loop_body data_folder d filename = ([CouldNotParse filename], Inr None)"
  by (simp add: loop_body_def parse_filename_no_match)

lemma loop_body_parsed:
  assumes "parse_filename filename = (Some s, Some g, Some a, Some b)"
    and "status d (with_suffix filename ''.txt'') \<noteq> Denied"
  shows "loop_body data_folder d filename =
           (fst (transcript data_folder d filename),
            Inr (Some [(''file'', Str (relative_to_parent data_folder filename)),
                       (''speaker'', Str s), (''gender'', Str g), (''age'', Num a),
                       (''birth_year'', Num b),
                       (''transcription'', Str (snd (transcript data_folder d filename)))]))"
  using assms(2)
  by (cases "status d (with_suffix filename ''.txt'')")
     (simp_all add: loop_body_def assms(1) Let_def transcript_def str_cell_def int_cell_def
        split: prod.splits)

lemma loop_body_denied:
  assumes "denied d filename"
  shows "loop_body data_folder d filename =
           ([], Inl (PermissionError (path_join data_folder (with_suffix filename ''.txt''))))"
proof -
  from assms have m: "matches_grammar filename"
    and st: "status d (with_suffix filename ''.txt'') = Denied"
    by (simp_all add: denied_def)
  from parse_filename_match [OF m] obtain s g a b
    where "parse_filename filename = (Some s, Some g, Some a, Some b)" by blast
  then show ?thesis by (simp add: loop_body_def Let_def st)
qed

lemma loop_body_not_denied:
  assumes "\<not> denied d filename"
  shows "\<exists>ds r. loop_body data_folder d filename = (ds, Inr r)"
proof (cases "matches_grammar filename")
  case False
  then show ?thesis by (simp add: loop_body_no_match)
next
  case True
  with assms have st: "status d (with_suffix filename ''.txt'') \<noteq> Denied"
    by (simp add: denied_def)
  from parse_filename_match [OF True] obtain s g a b
    where p: "parse_filename filename = (Some s, Some g, Some a, Some b)" by blast
  show ?thesis by (simp add: loop_body_parsed [OF p st])
qed

lemma loop_record_not_denied:
  assumes "\<not> denied d filename"
  shows "loop_body data_folder d filename
           = (fst (loop_body data_folder d filename), Inr (loop_record data_folder d filename))"
proof -
  from loop_body_not_denied [OF assms, of data_folder] obtain ds r
    where "loop_body data_folder d filename = (ds, Inr r)" by blast
  then show ?thesis by (simp add: loop_record_def)
qed

text \<open>
  As long as no pass ends the run, the loop prints what its passes print, in their
  order, and collects the records of the passes that were not skipped.
\<close>

lemma process_files_append:
  assumes "\<forall>f\<in>set xs. \<not> denied d f"
  shows "process_files data_folder d (xs @ ys) (out, records) =
           process_files data_folder d ys
             (out @ concat (map (\<lambda>f. fst (loop_body data_folder d f)) xs),
              records @ List.map_filter (loop_record data_folder d) xs)"
  using assms
proof (induction xs arbitrary: out records)
  case Nil
  show ?case by simp
next
  case (Cons x xs)
  then have x: "\<not> denied d x" and xs: "\<forall>f\<in>set xs. \<not> denied d f" by simp_all
  from loop_body_not_denied [OF x, of data_folder] obtain ds r
    where b: "loop_body data_folder d x = (ds, Inr r)" by blast
  then have lr: "loop_record data_folder d x = r" and ld: "fst (loop_body data_folder d x) = ds"
    by (simp_all add: loop_record_def)
  show ?case
  proof (cases r)
    case None
    with b have "process_files data_folder d ((x # xs) @ ys) (out, records)
          = process_files data_folder d (xs @ ys) (out @ ds, records)"
      by simp
    then show ?thesis
      unfolding Cons.IH [OF xs] by (simp add: lr ld None)
  next
    case (Some rec)
    with b have "process_files data_folder d ((x # xs) @ ys) (out, records)
          = process_files data_folder d (xs @ ys) (out @ ds, records @ [rec])"
      by simp
    then show ?thesis
      unfolding Cons.IH [OF xs] by (simp add: lr ld Some)
  qed
qed

lemma process_files_ok:
  assumes "\<forall>f\<in>set files. \<not> denied d f"
  shows "process_files data_folder d files (out, records) =
           (out @ concat (map (\<lambda>f. fst (loop_body data_folder d f)) files),
            Inr (records @ List.map_filter (loop_record data_folder d) files))"
  using process_files_append [OF assms, of data_folder "[]" out records] by simp

text \<open>The first pass that ends the run ends the loop with its exception.\<close>

lemma process_files_abort:
  assumes "\<forall>f\<in>set xs. \<not> denied d f" "denied d g"
  shows "process_files data_folder d (xs @ g # ys) (out, records) =
           (out @ concat (map (\<lambda>f. fst (loop_body data_folder d f)) xs),
            Inl (PermissionError (path_join data_folder (with_suffix g ''.txt''))))"
  unfolding process_files_append [OF assms(1)]
  by (simp add: loop_body_denied [OF assms(2)])

lemma process_files_Inr:
  assumes "snd (process_files data_folder d files (out, records)) = Inr rs"
  shows "\<forall>f\<in>set files. \<not> denied d f"
  using assms
proof (induction files arbitrary: out records)
  case Nil
  show ?case by simp
next
  case (Cons x xs)
  have x: "\<not> denied d x"
  proof
    assume "denied d x"
    from loop_body_denied [OF this, of data_folder] Cons.prems show False by simp
  qed
  from loop_body_not_denied [OF x, of data_folder] obtain ds r
    where b: "loop_body data_folder d x = (ds, Inr r)" by blast
  with Cons.prems have "\<exists>o' r'. snd (process_files data_folder d xs (o', r')) = Inr rs"
    by (cases r) auto
  with Cons.IH x show ?case by auto
qed


text \<open>The result of the loop does not depend on what was printed before it.\<close>

lemma process_files_snd_out:
  "snd (process_files data_folder d files (out, records))
     = snd (process_files data_folder d files (out', records))"
proof (induction files arbitrary: out out' records)
  case Nil
  show ?case by simp
next
  case (Cons x xs)
  obtain ds r where b: "loop_body data_folder d x = (ds, r)" by (cases "loop_body data_folder d x")
  show ?case
  proof (cases r)
    case (Inl e)
    with b show ?thesis by simp
  next
    case (Inr ro)
    with b Cons.IH [of "out @ ds" _ "out' @ ds"] show ?thesis
      by (cases ro) simp_all
  qed
qed


section \<open>Properties of the data frame operations\<close>

lemma fold_seen_subset:
  "set xs \<subseteq> set acc \<Longrightarrow> fold (\<lambda>x acc. if x \<in> set acc then acc else acc @ [x]) xs acc = acc"
  by (induction xs) auto

lemma fold_seen_distinct:
  "distinct (acc @ xs) \<Longrightarrow> fold (\<lambda>x acc. if x \<in> set acc then acc else acc @ [x]) xs acc = acc @ xs"
  by (induction xs arbitrary: acc) auto

lemma first_seen_same_keys:
  assumes "distinct K" "records \<noteq> []" "\<forall>r\<in>set records. map fst r = K"
  shows "first_seen (concat (map (map fst) records)) = K"
proof -
  from assms(2) obtain r rs where rs: "records = r # rs" by (cases records) auto
  with assms(3) have r: "map fst r = K" and "\<forall>r\<in>set rs. map fst r = K" by auto
  then have sub: "set (concat (map (map fst) rs)) \<subseteq> set K" by auto
  have "first_seen (concat (map (map fst) records))
          = fold (\<lambda>x acc. if x \<in> set acc then acc else acc @ [x]) (concat (map (map fst) rs))
              (fold (\<lambda>x acc. if x \<in> set acc then acc else acc @ [x]) K [])"
    by (simp add: first_seen_def rs r)
  also have "fold (\<lambda>x acc. if x \<in> set acc then acc else acc @ [x]) K [] = K"
    using fold_seen_distinct [of "[]" K] assms(1) by simp
  also have "fold (\<lambda>x acc. if x \<in> set acc then acc else acc @ [x]) (concat (map (map fst) rs)) K = K"
    using sub by (rule fold_seen_subset)
  finally show ?thesis .
qed

lemma is_record_keys:
  "is_record r \<Longrightarrow> map fst r = [''file'', ''speaker'', ''gender'', ''age'', ''birth_year'', ''transcription'']"
  by (auto simp: is_record_def)

lemma DataFrame_records:
  assumes "records \<noteq> []" "\<forall>r\<in>set records. is_record r"
  shows "DataFrame records =
           \<lparr>columns = [''file'', ''speaker'', ''gender'', ''age'', ''birth_year'', ''transcription''],
            rows = map (map snd) records, index_col = None\<rparr>"
proof -
  let ?K = "[''file'', ''speaker'', ''gender'', ''age'', ''birth_year'', ''transcription'']"
  have K: "first_seen (concat (map (map fst) records)) = ?K"
    using assms by (intro first_seen_same_keys) (simp_all add: is_record_keys)
  have "map (\<lambda>r. map (\<lambda>k. case map_of r k of Some v \<Rightarrow> v | None \<Rightarrow> Null) ?K) records
          = map (map snd) records"
  proof (rule map_cong [OF refl])
    fix r assume "r \<in> set records"
    with assms(2) have "is_record r" by blast
    then show "map (\<lambda>k. case map_of r k of Some v \<Rightarrow> v | None \<Rightarrow> Null) ?K = map snd r"
      by (auto simp: is_record_def)
  qed
  then show ?thesis by (simp add: DataFrame_def K)
qed

lemma frame_of_records:
  assumes "records \<noteq> []" "\<forall>r\<in>set records. is_record r"
  shows "(case select_columns column_order
                 (set_column ''emotion'' (Str ''unknown'') (DataFrame records)) of
            Inl e \<Rightarrow> Inl e
          | Inr df \<Rightarrow> set_index ''file'' df)
         = Inr \<lparr>columns = tl column_order,
                rows = map (\<lambda>r. tl (table_line r)) records,
                index_col = Some (''file'', map (\<lambda>r. hd (table_line r)) records)\<rparr>"
proof -
  let ?K = "[''file'', ''speaker'', ''gender'', ''age'', ''birth_year'', ''transcription'']"
  let ?sel = "\<lambda>r. map (\<lambda>k. the (cell_at (?K @ [''emotion'']) (map snd r @ [Str ''unknown'']) k)) column_order"
  have 2: "set_column ''emotion'' (Str ''unknown'') (DataFrame records)
             = \<lparr>columns = ?K @ [''emotion''],
                rows = map (\<lambda>r. map snd r @ [Str ''unknown'']) records, index_col = None\<rparr>"
    by (simp add: DataFrame_records [OF assms] set_column_def comp_def)
  have 3: "select_columns column_order (set_column ''emotion'' (Str ''unknown'') (DataFrame records))
             = Inr \<lparr>columns = column_order, rows = map ?sel records, index_col = None\<rparr>"
    unfolding 2 by (simp add: select_columns_def column_order_def comp_def)
  have line: "?sel r = table_line r" if "r \<in> set records" for r
  proof -
    from that assms(2) have "is_record r" by blast
    then show ?thesis
      by (auto simp: is_record_def table_line_def cell_at_def column_order_def)
  qed
  have 4: "map ?sel records = map table_line records"
    using line by (intro map_cong) auto
  have idx: "the (cell_at column_order (table_line r) ''file'') = hd (table_line r)" for r
    by (simp add: table_line_def cell_at_def column_order_def)
  have rest: "map snd (filter (\<lambda>(k, x). k \<noteq> ''file'') (zip column_order (table_line r))) = tl (table_line r)" for r
    by (simp add: table_line_def column_order_def)
  show ?thesis
    unfolding 3 4 by (simp add: set_index_def comp_def idx rest) (simp add: column_order_def)
qed

section \<open>What \<open>process_database\<close> computes\<close>

lemma loop_record_Some:
  assumes "loop_record data_folder d f = Some r"
  shows "matches_grammar f \<and> \<not> denied d f \<and>
         (\<exists>s g a b. parse_filename f = (Some s, Some g, Some a, Some b) \<and>
            r = [(''file'', Str (relative_to_parent data_folder f)),
                 (''speaker'', Str s), (''gender'', Str g), (''age'', Num a),
                 (''birth_year'', Num b),
                 (''transcription'', Str (snd (transcript data_folder d f)))])"
proof (cases "matches_grammar f")
  case False
  with assms show ?thesis by (simp add: loop_record_def loop_body_no_match)
next
  case True
  then obtain s g a b where p: "parse_filename f = (Some s, Some g, Some a, Some b)"
    using parse_filename_match by blast
  show ?thesis
  proof (cases "denied d f")
    case True
    from loop_body_denied [OF this, of data_folder] assms show ?thesis
      by (simp add: loop_record_def)
  next
    case False
    with \<open>matches_grammar f\<close> have "status d (with_suffix f ''.txt'') \<noteq> Denied"
      by (simp add: denied_def)
    from loop_body_parsed [OF p this, of data_folder] assms \<open>matches_grammar f\<close> False p
    show ?thesis by (simp add: loop_record_def)
  qed
qed

lemma loop_records_shape:
  assumes "r \<in> set (List.map_filter (loop_record data_folder d) files)"
  shows "is_record r"
proof -
  from assms obtain f where "loop_record data_folder d f = Some r"
    by (auto simp: List.map_filter_def)
  from loop_record_Some [OF this] show ?thesis unfolding is_record_def by blast
qed

lemma frame_of_no_records:
  "(case select_columns column_order (set_column ''emotion'' (Str ''unknown'') (DataFrame [])) of
      Inl e \<Rightarrow> Inl e
    | Inr df \<Rightarrow> set_index ''file'' df)
   = Inl (KeyError [''file'', ''speaker'', ''gender'', ''age'', ''birth_year'', ''transcription''])"
  by (simp add: DataFrame_def first_seen_def set_column_def select_columns_def column_order_def)

text \<open>The run in terms of the loop: what is printed, and what is returned.\<close>

lemma process_database_fst:
  assumes "fs data_folder = Present d"
  shows "fst (process_database fs data_folder)
           = fst (process_files data_folder d (audio_files d)
                    ([FoundAudioFiles (length (audio_files d))], []))"
proof -
  have len: "length (glob ''.WAV'' d @ glob ''.wav'' d) = length (audio_files d)"
    by (simp add: audio_files_def)
  show ?thesis
    unfolding process_database_def Let_def assms stat_result.case
      audio_files_def [symmetric] len
    by (simp split: prod.splits sum.splits)
qed

lemma process_database_snd:
  assumes "fs data_folder = Present d"
  shows "snd (process_database fs data_folder)
           = (case snd (process_files data_folder d (audio_files d) ([], [])) of
                Inl e \<Rightarrow> Inl e
              | Inr records \<Rightarrow>
                  (case select_columns column_order
                          (set_column ''emotion'' (Str ''unknown'') (DataFrame records)) of
                     Inl e \<Rightarrow> Inl e
                   | Inr df \<Rightarrow> set_index ''file'' df))"
proof -
  have len: "length (glob ''.WAV'' d @ glob ''.wav'' d) = length (audio_files d)"
    by (simp add: audio_files_def)
  have "snd (process_files data_folder d (audio_files d) ([], []))
          = snd (process_files data_folder d (audio_files d)
                   ([FoundAudioFiles (length (audio_files d))], []))"
    by (rule process_files_snd_out)
  then show ?thesis
    unfolding process_database_def Let_def assms stat_result.case
      audio_files_def [symmetric] len
    by (simp split: prod.splits sum.splits)
qed

lemma process_database_Inr_not_denied:
  assumes "fs data_folder = Present d" "snd (process_database fs data_folder) = Inr df"
  shows "\<forall>f\<in>set (audio_files d). \<not> denied d f"
proof -
  from assms(2) obtain rs
    where "snd (process_files data_folder d (audio_files d) ([], [])) = Inr rs"
    unfolding process_database_snd [where fs = fs, OF assms(1)]
    by (auto split: sum.splits)
  then show ?thesis by (rule process_files_Inr)
qed

lemma process_database_eq:
  assumes "fs data_folder = Present d" "\<forall>f\<in>set (audio_files d). \<not> denied d f"
  shows "process_database fs data_folder =
           (FoundAudioFiles (length (audio_files d))
              # concat (map (\<lambda>f. fst (loop_body data_folder d f)) (audio_files d)),
            let records = List.map_filter (loop_record data_folder d) (audio_files d)
            in if records = []
               then Inl (KeyError [''file'', ''speaker'', ''gender'', ''age'', ''birth_year'',
                                   ''transcription''])
               else Inr \<lparr>columns = tl column_order,
                         rows = map (\<lambda>r. tl (table_line r)) records,
                         index_col = Some (''file'', map (\<lambda>r. hd (table_line r)) records)\<rparr>)"
proof -
  let ?records = "List.map_filter (loop_record data_folder d) (audio_files d)"
  have shape: "\<forall>r\<in>set ?records. is_record r"
    using loop_records_shape by blast
  have 1: "fst (process_database fs data_folder)
             = FoundAudioFiles (length (audio_files d))
                 # concat (map (\<lambda>f. fst (loop_body data_folder d f)) (audio_files d))"
    unfolding process_database_fst [where fs = fs, OF assms(1)] process_files_ok [OF assms(2)]
    by simp
  have 2: "snd (process_database fs data_folder)
             = (if ?records = []
                then Inl (KeyError [''file'', ''speaker'', ''gender'', ''age'', ''birth_year'',
                                    ''transcription''])
                else Inr \<lparr>columns = tl column_order,
                          rows = map (\<lambda>r. tl (table_line r)) ?records,
                          index_col = Some (''file'', map (\<lambda>r. hd (table_line r)) ?records)\<rparr>)"
  proof (cases "?records = []")
    case True
    then show ?thesis
      unfolding process_database_snd [where fs = fs, OF assms(1)] process_files_ok [OF assms(2)]
      by (simp add: frame_of_no_records)
  next
    case False
    then show ?thesis
      unfolding process_database_snd [where fs = fs, OF assms(1)] process_files_ok [OF assms(2)]
      by (simp add: frame_of_records [OF False shape])
  qed
  from 1 2 show ?thesis
    by (simp add: prod_eq_iff Let_def)
qed

text \<open>The first audio file whose transcript may not be looked at ends the run.\<close>

lemma process_database_denied:
  assumes "fs data_folder = Present d" "audio_files d = xs @ g # ys"
    and "\<forall>f\<in>set xs. \<not> denied d f" "denied d g"
  shows "process_database fs data_folder =
           (FoundAudioFiles (length (audio_files d))
              # concat (map (\<lambda>f. fst (loop_body data_folder d f)) xs),
            Inl (PermissionError (path_join data_folder (with_suffix g ''.txt''))))"
proof -
  have 1: "fst (process_database fs data_folder)
             = FoundAudioFiles (length (audio_files d))
                 # concat (map (\<lambda>f. fst (loop_body data_folder d f)) xs)"
    unfolding process_database_fst [where fs = fs, OF assms(1)]
    unfolding assms(2) process_files_abort [OF assms(3,4)] by simp
  have 2: "snd (process_database fs data_folder)
             = Inl (PermissionError (path_join data_folder (with_suffix g ''.txt'')))"
    unfolding process_database_snd [where fs = fs, OF assms(1)]
    unfolding assms(2) process_files_abort [OF assms(3,4)] by simp
  from 1 2 show ?thesis by (simp add: prod_eq_iff)
qed

lemma loop_record_line:
  assumes "matches_grammar f" "\<not> denied d f"
  shows "\<exists>r. loop_record data_folder d f = Some r \<and> table_line r = file_line data_folder d f"
proof -
  from assms(1) obtain s g a b where p: "parse_filename f = (Some s, Some g, Some a, Some b)"
    using parse_filename_match by blast
  from assms have st: "status d (with_suffix f ''.txt'') \<noteq> Denied"
    by (simp add: denied_def)
  show ?thesis
    by (simp add: loop_record_def loop_body_parsed [OF p st] table_line_def file_line_def p
          column_order_def str_cell_def int_cell_def)
qed

lemma loop_lines:
  assumes "\<forall>f\<in>set files. \<not> denied d f"
  shows "map table_line (List.map_filter (loop_record data_folder d) files)
           = map (file_line data_folder d) (filter matches_grammar files)"
  using assms
proof (induction files)
  case Nil
  show ?case by simp
next
  case (Cons f files)
  then have f: "\<not> denied d f" and IH: "map table_line (List.map_filter (loop_record data_folder d) files)
           = map (file_line data_folder d) (filter matches_grammar files)" by simp_all
  show ?case
  proof (cases "matches_grammar f")
    case True
    from loop_record_line [OF True f, of data_folder] obtain r
      where "loop_record data_folder d f = Some r" "table_line r = file_line data_folder d f"
      by blast
    with True IH show ?thesis by simp
  next
    case False
    then have "loop_record data_folder d f = None"
      by (simp add: loop_record_def loop_body_no_match)
    with False IH show ?thesis by simp
  qed
qed

lemma table_line_hd_tl: "table_line r = hd (table_line r) # tl (table_line r)"
  by (simp add: table_line_def column_order_def)

lemma file_line_hd: "hd (file_line data_folder d f) = Str (relative_to_parent data_folder f)"
  by (simp add: file_line_def split: prod.splits)

lemma zip_hd_tl_lines:
  "map (\<lambda>(v, r). v # r) (zip (map (\<lambda>r. hd (table_line r)) records) (map (\<lambda>r. tl (table_line r)) records))
     = map table_line records"
proof (induction records)
  case Nil
  show ?case by simp
next
  case (Cons r records)
  then show ?case using table_line_hd_tl [of r] by simp
qed

text \<open>
  The run ends with a table exactly when no pass ended it and some audio file parses;
  the table then has one line for each audio file that parses, in the order of the loop.
\<close>

lemma process_database_table:
  assumes "fs data_folder = Present d" "snd (process_database fs data_folder) = Inr df"
  shows "filter matches_grammar (audio_files d) \<noteq> []"
    and "columns df = tl column_order"
    and "index_col df = Some (''file'', map (\<lambda>f. Str (relative_to_parent data_folder f))
                                          (filter matches_grammar (audio_files d)))"
    and "length (rows df) = length (filter matches_grammar (audio_files d))"
    and "csv_lines df = map (file_line data_folder d) (filter matches_grammar (audio_files d))"
proof -
  let ?records = "List.map_filter (loop_record data_folder d) (audio_files d)"
  let ?ms = "filter matches_grammar (audio_files d)"
  note nd = process_database_Inr_not_denied [where fs = fs, OF assms]
  have lines: "map table_line ?records = map (file_line data_folder d) ?ms"
    by (rule loop_lines [OF nd])
  from assms have ne: "?records \<noteq> []"
    by (auto simp: process_database_eq [where fs = fs, OF assms(1) nd] Let_def split: if_splits)
  with assms have df: "df = \<lparr>columns = tl column_order,
                         rows = map (\<lambda>r. tl (table_line r)) ?records,
                         index_col = Some (''file'', map (\<lambda>r. hd (table_line r)) ?records)\<rparr>"
    by (simp add: process_database_eq [where fs = fs, OF assms(1) nd] Let_def)
  from lines ne show "?ms \<noteq> []" by auto
  show "columns df = tl column_order" by (simp add: df)
  have "map (\<lambda>r. hd (table_line r)) ?records = map hd (map table_line ?records)"
    by simp
  also have "\<dots> = map (\<lambda>f. Str (relative_to_parent data_folder f)) ?ms"
    unfolding lines by (simp add: file_line_hd)
  finally show "index_col df = Some (''file'', map (\<lambda>f. Str (relative_to_parent data_folder f)) ?ms)"
    by (simp add: df)
  have "length (rows df) = length (map table_line ?records)" by (simp add: df)
  then show "length (rows df) = length ?ms" unfolding lines by simp
  show "csv_lines df = map (file_line data_folder d) ?ms"
    unfolding lines [symmetric] by (simp add: csv_lines_def df zip_hd_tl_lines)
qed

lemma process_database_succeeds:
  assumes "fs data_folder = Present d" "\<forall>f\<in>set (audio_files d). \<not> denied d f"
    and "filter matches_grammar (audio_files d) \<noteq> []"
  shows "\<exists>df. snd (process_database fs data_folder) = Inr df"
proof -
  let ?records = "List.map_filter (loop_record data_folder d) (audio_files d)"
  have "map table_line ?records \<noteq> []"
    unfolding loop_lines [OF assms(2)] using assms(3) by simp
  then have "?records \<noteq> []" by auto
  then show ?thesis by (simp add: process_database_eq [where fs = fs, OF assms(1,2)] Let_def)
qed

lemma process_database_no_records:
  assumes "fs data_folder = Present d" "\<forall>f\<in>set (audio_files d). \<not> denied d f"
    and "filter matches_grammar (audio_files d) = []"
  shows "snd (process_database fs data_folder) =
           Inl (KeyError [''file'', ''speaker'', ''gender'', ''age'', ''birth_year'', ''transcription''])"
proof -
  let ?records = "List.map_filter (loop_record data_folder d) (audio_files d)"
  have "map table_line ?records = []"
    unfolding loop_lines [OF assms(2)] using assms(3) by simp
  then have "?records = []" by auto
  then show ?thesis by (simp add: process_database_eq [where fs = fs, OF assms(1,2)] Let_def)
qed

lemma process_database_log:
  assumes "fs data_folder = Present d" "\<forall>f\<in>set (audio_files d). \<not> denied d f"
  shows "fst (process_database fs data_folder) =
           FoundAudioFiles (length (audio_files d))
             # concat (map (\<lambda>f. fst (loop_body data_folder d f)) (audio_files d))"
  by (simp add: process_database_eq [where fs = fs, OF assms])

section \<open>Facts for the claims about the extractor\<close>

lemma matches_grammar_code: "matches_grammar s \<longleftrightarrow> re_match s \<noteq> None"
  by (rule re_match_iff [symmetric])


text \<open>The key of a file: the last part of the data folder's path, then the name.\<close>

lemma join_sep_two: "join_sep [x, y] = x @ ''/'' @ y"
  by simp

lemma relative_to_parent_eq:
  "relative_to_parent data_folder filename =
     (if parts (Path data_folder) = [] then filename
      else last (parts (Path data_folder)) @ ''/'' @ filename)"
proof (cases "parts (Path data_folder)" rule: rev_cases)
  case Nil
  then show ?thesis
    by (simp add: relative_to_parent_def Let_def relative_to_def child_def parent_def
          path_str_def)
next
  case (snoc ps p)
  then show ?thesis
    by (simp add: relative_to_parent_def Let_def relative_to_def child_def parent_def
          path_str_def)
qed

text \<open>The data folder is read as \<open>Path\<close> reads it, whatever way it is written.\<close>

lemma data_folder_written_otherwise:
  "map (\<lambda>s. relative_to_parent s ''x.WAV'') [''data'', ''data/'', ''./data'', ''data/.'', ''a//data'']
     = replicate 5 ''data/x.WAV''"
  "map (\<lambda>s. path_join s ''x.txt'') [''data'', ''data/'', ''./data'', ''data/.'']
     = replicate 4 ''data/x.txt''"
  "map (\<lambda>s. relative_to_parent s ''x.WAV'') [[], ''.'', ''./.'', ''/''] = replicate 4 ''x.WAV''"
  "map (\<lambda>s. path_join s ''x.txt'') [''.'', ''/'', ''/a/b/'', ''..'']
     = [''x.txt'', ''/x.txt'', ''/a/b/x.txt'', ''../x.txt'']"
  by code_simp+

lemma relative_to_parent_inj:
  "relative_to_parent data_folder f = relative_to_parent data_folder g \<Longrightarrow> f = g"
  by (simp add: relative_to_parent_eq split: if_splits)

lemma glob_disjoint: "set (glob ''.WAV'' d) \<inter> set (glob ''.wav'' d) = {}"
  by (auto simp: glob_def ends_with_def)

lemma distinct_audio_files:
  assumes "distinct (listing d)"
  shows "distinct (audio_files d)"
  using assms glob_disjoint [of d] by (simp add: audio_files_def glob_def)


lemma file_line_parsed:
  assumes "matches_grammar f"
  shows "\<exists>s g a b. parse_filename f = (Some s, Some g, Some a, Some b) \<and>
           file_line data_folder d f =
             [Str (relative_to_parent data_folder f), Str s, Str g, Num a, Num b,
              Str ''unknown'', Str (snd (transcript data_folder d f))]"
proof -
  from parse_filename_match [OF assms] obtain s g a b
    where p: "parse_filename f = (Some s, Some g, Some a, Some b)" by blast
  then show ?thesis by (simp add: file_line_def str_cell_def int_cell_def)
qed

lemma header_table:
  assumes "fs data_folder = Present d" "snd (process_database fs data_folder) = Inr df"
  shows "header df = column_order"
  using process_database_table(2,3) [where fs = fs, OF assms]
  by (simp add: header_def column_order_def)

lemma loop_log_member:
  assumes "f \<in> set files" "x \<in> set (fst (loop_body data_folder d f))"
  shows "x \<in> set (concat (map (\<lambda>f. fst (loop_body data_folder d f)) files))"
  using assms by auto

lemma example_run:
  "process_database example_fs ''data'' =
     ([FoundAudioFiles 4, NoTranscription ''G_1988_F_07_st.wav'',
       CouldNotRead ''data/G_2000_F_1_st.txt'', CouldNotParse ''random_file.WAV''],
      Inr example_table)"
  by code_simp










section \<open>Properties of the merger\<close>

lemma common_cols_distinct: "distinct common_cols"
  by (simp add: common_cols_def)

lemma length_common_cols: "length common_cols = 10"
  by (simp add: common_cols_def)

lemma unique_cols_in: "set (unique_cols df) \<subseteq> set (columns df)"
  by (auto simp: unique_cols_def)

lemma unique_cols_not_common: "set (unique_cols df) \<inter> set common_cols = {}"
  by (auto simp: unique_cols_def)

lemma cell_at_Some:
  "length r = length cols \<Longrightarrow> k \<in> set cols \<Longrightarrow> \<exists>v. cell_at cols r k = Some v"
proof -
  assume len: "length r = length cols" and k: "k \<in> set cols"
  from len have "map fst (zip cols r) = cols" by simp
  then have "fst ` set (zip cols r) = set cols" by (metis set_map)
  with k have "map_of (zip cols r) k \<noteq> None" by (simp add: map_of_eq_None_iff)
  then show ?thesis by (auto simp: cell_at_def)
qed

lemma cell_at_map:
  "k \<in> set ks \<Longrightarrow> cell_at ks (map f ks) k = Some (f k)"
  by (simp add: cell_at_def map_of_zip_map)

text \<open>The selection \<open>segmented[common_cols + segmented_unique]\<close>.\<close>

lemma select_missing:
  "filter (\<lambda>k. k \<notin> set (columns df)) (common_cols @ unique_cols df)
     = filter (\<lambda>k. k \<notin> set (columns df)) common_cols"
  by (simp add: unique_cols_def)

lemma select_right_error:
  assumes "\<not> set common_cols \<subseteq> set (columns segmented)"
  shows "select_columns (common_cols @ unique_cols segmented) segmented
           = Inl (KeyError (filter (\<lambda>k. k \<notin> set (columns segmented)) common_cols))"
proof -
  from assms have "filter (\<lambda>k. k \<notin> set (columns segmented)) common_cols \<noteq> []"
    by (auto simp: filter_empty_conv)
  then show ?thesis
    unfolding select_columns_def Let_def select_missing by simp
qed

lemma select_right_ok:
  assumes "set common_cols \<subseteq> set (columns segmented)"
  shows "select_columns (common_cols @ unique_cols segmented) segmented
           = Inr (segmented\<lparr>columns := common_cols @ unique_cols segmented,
                   rows := map (\<lambda>r. map (\<lambda>k. the (cell_at (columns segmented) r k))
                                         (common_cols @ unique_cols segmented))
                               (rows segmented)\<rparr>)"
proof -
  from assms have "filter (\<lambda>k. k \<notin> set (columns segmented)) common_cols = []"
    by (auto simp: filter_empty_conv)
  then show ?thesis
    unfolding select_columns_def Let_def select_missing by simp
qed

text \<open>A selected row has the key tuple and the other cells of the row it comes from.\<close>

lemma key_tuple_selected:
  assumes "length r = length cols" "set on \<subseteq> set cols" "set on \<subseteq> set ks"
  shows "key_tuple on ks (map (\<lambda>k. the (cell_at cols r k)) ks) = key_tuple on cols r"
  unfolding key_tuple_def
proof (rule map_cong [OF refl])
  fix k assume "k \<in> set on"
  with assms have "k \<in> set cols" "k \<in> set ks" by auto
  from cell_at_Some [OF assms(1) this(1)] obtain v where "cell_at cols r k = Some v" by blast
  with \<open>k \<in> set ks\<close> show "cell_at ks (map (\<lambda>k. the (cell_at cols r k)) ks) k = cell_at cols r k"
    by (simp add: cell_at_map)
qed

lemma filter_zip_map_keep:
  "set ys \<inter> set on = {} \<Longrightarrow>
   map snd (filter (\<lambda>(k, x). k \<notin> set on) (zip ys (map f ys))) = map f ys"
  by (induction ys) auto

lemma filter_zip_map_drop:
  "set xs \<subseteq> set on \<Longrightarrow> filter (\<lambda>(k, x). k \<notin> set on) (zip xs (map f xs)) = []"
  by (induction xs) auto

lemma non_key_cells_selected:
  assumes "set ys \<inter> set on = {}"
  shows "non_key_cells on (on @ ys) (map f (on @ ys)) = map f ys"
  by (simp add: non_key_cells_def zip_append filter_zip_map_drop filter_zip_map_keep [OF assms])

lemma lookup_filtered:
  assumes "distinct cols" "length r = length cols"
  shows "map (\<lambda>k. the (cell_at cols r k)) (filter P cols)
           = map snd (filter (\<lambda>(k, x). P k) (zip cols r))"
  using assms
proof (induction cols arbitrary: r)
  case Nil
  show ?case by simp
next
  case (Cons c cols)
  then obtain x xs where r: "r = x # xs" "length xs = length cols"
    by (cases r) auto
  have "map (\<lambda>k. the (cell_at (c # cols) (x # xs) k)) (filter P cols)
          = map (\<lambda>k. the (cell_at cols xs k)) (filter P cols)"
    using Cons.prems(1) by (intro map_cong) (auto simp: cell_at_def)
  with Cons.IH [of xs] Cons.prems(1) r show ?case
    by (simp add: cell_at_def)
qed

lemma selected_unique_cells:
  assumes "distinct cols" "length r = length cols"
  shows "map (\<lambda>k. the (cell_at cols r k)) (filter (\<lambda>c. c \<notin> set on) cols) = non_key_cells on cols r"
  unfolding non_key_cells_def by (rule lookup_filtered [OF assms])

lemma wf_frame_row: "wf_frame df \<Longrightarrow> r \<in> set (rows df) \<Longrightarrow> length r = length (columns df)"
  by (simp add: wf_frame_def list_all_iff)

lemma wf_frame_distinct: "wf_frame df \<Longrightarrow> distinct (columns df)"
  by (simp add: wf_frame_def)

lemma right_columns_outside_keys:
  "filter (\<lambda>c. c \<notin> set common_cols) (common_cols @ unique_cols df) = unique_cols df"
  by (simp add: unique_cols_def)

lemma merge_missing_left:
  "filter (\<lambda>k. k \<notin> set (columns A) \<or> k \<notin> set (common_cols @ unique_cols B)) common_cols
     = filter (\<lambda>k. k \<notin> set (columns A)) common_cols"
  by (rule filter_cong) auto

lemma overlap_left:
  "map (\<lambda>c. if c \<in> set (filter (\<lambda>c. c \<in> set (unique_cols B)) (columns A))
            then c @ ''_x'' else c) (columns A)
     = left_labels A B"
  unfolding left_labels_def by (rule map_cong) (auto simp: unique_cols_def)

lemma overlap_right:
  "map (\<lambda>c. if c \<in> set (filter (\<lambda>c. c \<in> set (unique_cols B)) (columns A))
            then c @ ''_y'' else c) (unique_cols B)
     = right_labels A B"
  unfolding right_labels_def by (rule map_cong) (auto simp: unique_cols_def)

lemma joined_rows_selected:
  assumes "wf_frame B" "set common_cols \<subseteq> set (columns B)"
  shows "concat (map (\<lambda>l. map (\<lambda>r. l @ non_key_cells common_cols (common_cols @ unique_cols B) r)
                          (filter (\<lambda>r. key_tuple common_cols (common_cols @ unique_cols B) r
                                        = key_tuple common_cols (columns A) l)
                                  (map (\<lambda>r. map (\<lambda>k. the (cell_at (columns B) r k))
                                               (common_cols @ unique_cols B))
                                       (rows B))))
                 (rows A))
         = joined_rows A B"
proof -
  let ?sel = "\<lambda>r. map (\<lambda>k. the (cell_at (columns B) r k)) (common_cols @ unique_cols B)"
  have key: "key_tuple common_cols (common_cols @ unique_cols B) (?sel r)
               = key_tuple common_cols (columns B) r" if "r \<in> set (rows B)" for r
    using wf_frame_row [OF assms(1) that] assms(2) by (intro key_tuple_selected) auto
  have cells: "non_key_cells common_cols (common_cols @ unique_cols B) (?sel r)
               = non_key_cells common_cols (columns B) r" if "r \<in> set (rows B)" for r
  proof -
    have "non_key_cells common_cols (common_cols @ unique_cols B) (?sel r)
            = map (\<lambda>k. the (cell_at (columns B) r k)) (unique_cols B)"
      using unique_cols_not_common [of B] by (rule non_key_cells_selected)
    also have "\<dots> = non_key_cells common_cols (columns B) r"
      unfolding unique_cols_def
      by (rule selected_unique_cells [OF wf_frame_distinct [OF assms(1)]
            wf_frame_row [OF assms(1) that]])
    finally show ?thesis .
  qed
  have inner: "map (\<lambda>r. l @ non_key_cells common_cols (common_cols @ unique_cols B) r)
                 (filter (\<lambda>r. key_tuple common_cols (common_cols @ unique_cols B) r
                               = key_tuple common_cols (columns A) l)
                         (map ?sel (rows B)))
               = map (\<lambda>r. l @ non_key_cells common_cols (columns B) r)
                   (filter (\<lambda>r. key_tuple common_cols (columns B) r
                                 = key_tuple common_cols (columns A) l)
                           (rows B))" (is "map ?F (filter ?P' (map ?sel (rows B))) = map ?G (filter ?P (rows B))") for l
  proof -
    have "map ?F (filter ?P' (map ?sel (rows B))) = map ?F (map ?sel (filter (?P' \<circ> ?sel) (rows B)))"
      by (simp only: filter_map)
    also have "\<dots> = map (\<lambda>r. ?F (?sel r)) (filter (\<lambda>r. ?P' (?sel r)) (rows B))"
      by (simp only: map_map comp_def)
    also have "filter (\<lambda>r. ?P' (?sel r)) (rows B) = filter ?P (rows B)"
      by (rule filter_cong [OF refl]) (simp only: key)
    also have "map (\<lambda>r. ?F (?sel r)) (filter ?P (rows B)) = map ?G (filter ?P (rows B))"
    proof (rule map_cong [OF refl])
      fix r assume "r \<in> set (filter ?P (rows B))"
      then have "r \<in> set (rows B)" by simp
      then show "?F (?sel r) = ?G r" by (simp only: cells)
    qed
    finally show ?thesis .
  qed
  show ?thesis unfolding joined_rows_def inner ..
qed

text \<open>
  What the script computes when both frames have the ten key columns: the joined rows
  under the labels, unless the suffixes make a label occur twice on one side.
\<close>

lemma pd_merge_selected:
  assumes "wf_frame B" "set common_cols \<subseteq> set (columns B)"
  shows "pd_merge A (B\<lparr>columns := common_cols @ unique_cols B,
                        rows := map (\<lambda>r. map (\<lambda>k. the (cell_at (columns B) r k))
                                              (common_cols @ unique_cols B))
                                    (rows B)\<rparr>) common_cols
         = (if filter (\<lambda>k. k \<notin> set (columns A)) common_cols \<noteq> []
            then Inl (KeyError [hd (filter (\<lambda>k. k \<notin> set (columns A)) common_cols)])
            else if \<not> distinct (left_labels A B) \<or> \<not> distinct (right_labels A B)
            then Inl MergeError
            else Inr \<lparr>columns = left_labels A B @ right_labels A B,
                      rows = joined_rows A B, index_col = None\<rparr>)"
proof -
  let ?R = "B\<lparr>columns := common_cols @ unique_cols B,
              rows := map (\<lambda>r. map (\<lambda>k. the (cell_at (columns B) r k))
                                    (common_cols @ unique_cols B))
                          (rows B)\<rparr>"
  have cR: "columns ?R = common_cols @ unique_cols B"
    and rR: "rows ?R = map (\<lambda>r. map (\<lambda>k. the (cell_at (columns B) r k))
                                    (common_cols @ unique_cols B)) (rows B)"
    by simp_all
  show ?thesis
    unfolding pd_merge_def Let_def cR rR merge_missing_left right_columns_outside_keys
      overlap_left overlap_right joined_rows_selected [OF assms] ..
qed

lemma merge_predictions_ok:
  assumes "wf_frame B" "set common_cols \<subseteq> set (columns A)" "set common_cols \<subseteq> set (columns B)"
  shows "merge_predictions A B =
           (if \<not> distinct (left_labels A B) \<or> \<not> distinct (right_labels A B) then Inl MergeError
            else Inr \<lparr>columns = left_labels A B @ right_labels A B,
                      rows = joined_rows A B, index_col = None\<rparr>)"
proof -
  from assms(2) have none: "filter (\<lambda>k. k \<notin> set (columns A)) common_cols = []"
    by (auto simp: filter_empty_conv)
  show ?thesis
    unfolding merge_predictions_def Let_def select_right_ok [OF assms(3)] sum.case
      pd_merge_selected [OF assms(1,3)] none
    by simp
qed

lemma merge_predictions_left_error:
  assumes "\<not> set common_cols \<subseteq> set (columns A)" "set common_cols \<subseteq> set (columns B)"
  shows "merge_predictions A B
           = Inl (KeyError [hd (filter (\<lambda>k. k \<notin> set (columns A)) common_cols)])"
proof -
  let ?R = "B\<lparr>columns := common_cols @ unique_cols B,
              rows := map (\<lambda>r. map (\<lambda>k. the (cell_at (columns B) r k))
                                    (common_cols @ unique_cols B))
                          (rows B)\<rparr>"
  have cR: "columns ?R = common_cols @ unique_cols B"
    by simp
  from assms(1) have some: "filter (\<lambda>k. k \<notin> set (columns A)) common_cols \<noteq> []"
    by (auto simp: filter_empty_conv)
  have "pd_merge A ?R common_cols
          = Inl (KeyError [hd (filter (\<lambda>k. k \<notin> set (columns A)) common_cols)])"
    unfolding pd_merge_def Let_def cR merge_missing_left using some by simp
  then show ?thesis
    unfolding merge_predictions_def Let_def select_right_ok [OF assms(2)] sum.case .
qed

lemma merge_predictions_right_error:
  assumes "\<not> set common_cols \<subseteq> set (columns B)"
  shows "merge_predictions A B
           = Inl (KeyError (filter (\<lambda>k. k \<notin> set (columns B)) common_cols))"
  by (simp add: merge_predictions_def select_right_error [OF assms])

lemma merge_predictions_Inr:
  assumes "wf_frame B" "merge_predictions A B = Inr M"
  shows "set common_cols \<subseteq> set (columns A)" and "set common_cols \<subseteq> set (columns B)"
    and "distinct (left_labels A B)" and "distinct (right_labels A B)"
    and "M = \<lparr>columns = left_labels A B @ right_labels A B, rows = joined_rows A B,
              index_col = None\<rparr>"
proof -
  show B: "set common_cols \<subseteq> set (columns B)"
  proof (rule ccontr)
    assume "\<not> set common_cols \<subseteq> set (columns B)"
    from merge_predictions_right_error [OF this, of A] assms(2) show False by simp
  qed
  show A: "set common_cols \<subseteq> set (columns A)"
  proof (rule ccontr)
    assume "\<not> set common_cols \<subseteq> set (columns A)"
    from merge_predictions_left_error [OF this B] assms(2) show False by simp
  qed
  note ok = merge_predictions_ok [OF assms(1) A B]
  from ok assms(2) show L: "distinct (left_labels A B)"
    by (auto split: if_splits)
  from ok assms(2) show R: "distinct (right_labels A B)"
    by (auto split: if_splits)
  from ok assms(2) L R
  show "M = \<lparr>columns = left_labels A B @ right_labels A B, rows = joined_rows A B,
              index_col = None\<rparr>"
    by simp
qed

lemma joined_rows_member:
  "m \<in> set (joined_rows A B) \<longleftrightarrow>
     (\<exists>l\<in>set (rows A). \<exists>r\<in>set (rows B).
        key_tuple common_cols (columns B) r = key_tuple common_cols (columns A) l \<and>
        m = l @ non_key_cells common_cols (columns B) r)"
  by (auto simp: joined_rows_def)

lemma map_of_zip_renamed:
  assumes "inj_on f (set xs)" "k \<in> set xs"
  shows "map_of (zip (map f xs) l) (f k) = map_of (zip xs l) k"
  using assms
proof (induction xs arbitrary: l)
  case Nil
  then show ?case by simp
next
  case (Cons x xs)
  show ?case
  proof (cases l)
    case Nil
    then show ?thesis by simp
  next
    case (Cons y ys)
    show ?thesis
    proof (cases "x = k")
      case True
      then show ?thesis by (simp add: Cons)
    next
      case False
      with Cons.prems have "f x \<noteq> f k" and "k \<in> set xs" and "inj_on f (set xs)"
        by (auto simp: inj_on_def)
      with Cons.IH [of ys] False show ?thesis by (simp add: Cons)
    qed
  qed
qed

lemma length_left_labels: "length (left_labels A B) = length (columns A)"
  by (simp add: left_labels_def)

text \<open>A key column of a merged row holds what the left row holds.\<close>

lemma merged_key_cell:
  assumes "distinct (left_labels A B)" "length l = length (columns A)"
    and "k \<in> set common_cols" "k \<in> set (columns A)"
  shows "cell_at (left_labels A B @ right_labels A B) (l @ x) k = cell_at (columns A) l k"
proof -
  let ?f = "\<lambda>c. if c \<in> set (unique_cols B) then c @ ''_x'' else c"
  from assms(3) have fk: "?f k = k"
    by (auto simp: unique_cols_def)
  from assms(1) have inj: "inj_on ?f (set (columns A))"
    by (simp add: left_labels_def distinct_map)
  from map_of_zip_renamed [OF inj assms(4), of l]
  have left: "map_of (zip (left_labels A B) l) k = map_of (zip (columns A) l) k"
    unfolding left_labels_def fk .
  from cell_at_Some [OF assms(2,4)] obtain v where v: "map_of (zip (columns A) l) k = Some v"
    by (auto simp: cell_at_def)
  have "zip (left_labels A B @ right_labels A B) (l @ x)
          = zip (left_labels A B) l @ zip (right_labels A B) x"
    using assms(2) by (simp add: length_left_labels)
  then show ?thesis
    by (simp add: cell_at_def map_add_def left v)
qed

lemma merged_key_tuple:
  assumes "distinct (left_labels A B)" "length l = length (columns A)"
    and "set common_cols \<subseteq> set (columns A)"
  shows "key_tuple common_cols (left_labels A B @ right_labels A B) (l @ x)
           = key_tuple common_cols (columns A) l"
  unfolding key_tuple_def
proof (rule map_cong [OF refl])
  fix k assume k: "k \<in> set common_cols"
  with assms(3) have "k \<in> set (columns A)" by blast
  from merged_key_cell [OF assms(1,2) k this]
  show "cell_at (left_labels A B @ right_labels A B) (l @ x) k = cell_at (columns A) l k" .
qed

lemma key_tuple_cells:
  assumes "length l = length cols" "length r = length cols'"
    and "set on \<subseteq> set cols" "set on \<subseteq> set cols'"
    and "key_tuple on cols' r = key_tuple on cols l" "k \<in> set on"
  shows "\<exists>v. cell_at cols l k = Some v \<and> cell_at cols' r k = Some v"
proof -
  from assms(5,6) have "cell_at cols' r k = cell_at cols l k"
    by (simp add: key_tuple_def)
  moreover from assms(1,3,6) cell_at_Some [of l cols k] obtain v where "cell_at cols l k = Some v"
    by blast
  ultimately show ?thesis by simp
qed

text \<open>Counting the rows of the join when no key tuple occurs twice.\<close>

lemma one_match:
  assumes "distinct (map f xs)" "k \<in> set (map f xs)"
  shows "length (filter (\<lambda>x. f x = k) xs) = 1"
  using assms
proof (induction xs)
  case Nil
  then show ?case by simp
next
  case (Cons x xs)
  show ?case
  proof (cases "f x = k")
    case True
    have "f y \<noteq> k" if "y \<in> set xs" for y
    proof
      assume "f y = k"
      with that have "k \<in> f ` set xs" by blast
      with Cons.prems(1) True show False by simp
    qed
    then have "filter (\<lambda>x. f x = k) xs = []"
      by (simp add: filter_empty_conv)
    with True show ?thesis by simp
  next
    case False
    with Cons show ?thesis by simp
  qed
qed

lemma length_joined_rows:
  "length (joined_rows A B)
     = sum_list (map (\<lambda>l. length (filter (\<lambda>r. key_tuple common_cols (columns B) r
                                              = key_tuple common_cols (columns A) l) (rows B)))
                     (rows A))"
  by (simp add: joined_rows_def length_concat comp_def)

lemma length_joined_rows_distinct:
  assumes "map (key_tuple common_cols (columns A)) (rows A)
             = map (key_tuple common_cols (columns B)) (rows B)"
    and "distinct (map (key_tuple common_cols (columns A)) (rows A))"
  shows "length (joined_rows A B) = length (rows A)"
proof -
  have "length (filter (\<lambda>r. key_tuple common_cols (columns B) r
                            = key_tuple common_cols (columns A) l) (rows B)) = 1"
    if "l \<in> set (rows A)" for l
  proof (rule one_match)
    show "distinct (map (key_tuple common_cols (columns B)) (rows B))"
      using assms by simp
    from that have "key_tuple common_cols (columns A) l
                      \<in> set (map (key_tuple common_cols (columns A)) (rows A))"
      by simp
    then show "key_tuple common_cols (columns A) l
                 \<in> set (map (key_tuple common_cols (columns B)) (rows B))"
      unfolding assms(1) .
  qed
  then have "map (\<lambda>l. length (filter (\<lambda>r. key_tuple common_cols (columns B) r
                                          = key_tuple common_cols (columns A) l) (rows B)))
                 (rows A)
             = map (\<lambda>l. 1) (rows A)"
    by (intro map_cong) auto
  then have "length (joined_rows A B) = sum_list (map (\<lambda>l. 1) (rows A))"
    unfolding length_joined_rows by (simp only:)
  also have "\<dots> = length (rows A)"
    by (simp add: sum_list_triv)
  finally show ?thesis .
qed

lemma length_columns_keys:
  assumes "distinct (columns df)" "set common_cols \<subseteq> set (columns df)"
  shows "length (columns df) = 10 + length (unique_cols df)"
proof -
  let ?in = "filter (\<lambda>c. c \<in> set common_cols) (columns df)"
  have "distinct ?in" using assms(1) by simp
  moreover have "set ?in = set common_cols" using assms(2) by auto
  ultimately have "length ?in = card (set common_cols)"
    by (metis distinct_card)
  also have "\<dots> = 10"
    using common_cols_distinct by (simp add: distinct_card length_common_cols)
  finally have "length ?in = 10" .
  moreover have "length (columns df) = length ?in + length (unique_cols df)"
    unfolding unique_cols_def by (rule sum_length_filter_compl [symmetric])
  ultimately show ?thesis by simp
qed

lemma labels_disjoint_unique:
  assumes "set (unique_cols A) \<inter> set (unique_cols B) = {}"
  shows "left_labels A B = columns A" and "right_labels A B = unique_cols B"
proof -
  have "c \<notin> set (unique_cols B)" if "c \<in> set (columns A)" for c
  proof
    assume b: "c \<in> set (unique_cols B)"
    then have "c \<notin> set common_cols" by (simp add: unique_cols_def)
    with that have "c \<in> set (unique_cols A)" by (simp add: unique_cols_def)
    with b assms show False by blast
  qed
  then show "left_labels A B = columns A"
    unfolding left_labels_def by (induction "columns A") (auto simp: map_idI)
  have "c \<notin> set (columns A)" if b: "c \<in> set (unique_cols B)" for c
  proof
    assume a: "c \<in> set (columns A)"
    from b have "c \<notin> set common_cols" by (simp add: unique_cols_def)
    with a have "c \<in> set (unique_cols A)" by (simp add: unique_cols_def)
    with b assms show False by blast
  qed
  then show "right_labels A B = unique_cols B"
    unfolding right_labels_def by (simp add: map_idI)
qed

section \<open>Claims about \<open>parse_filename\<close>\<close>

text \<open>
  C1. For every filename accepted by the filename grammar, the parse gives
  \<open>birth_year\<close> the integer value of the group of four digits and
  \<open>age = 2025 - birth_year\<close>, so that \<open>age + birth_year = 2025\<close>.
\<close>

theorem parse_filename_age_birth_year:
  assumes "valid_groups y g n e"
  shows "\<exists>speaker gender age birth_year.
           parse_filename (mk_name y g n e @ rest) = (speaker, gender, Some age, Some birth_year) \<and>
           birth_year = int_of_digits y \<and> age = 2025 - birth_year \<and> age + birth_year = 2025"
  by (simp add: parse_filename_groups [OF assms])

theorem parse_filename_age_birth_year_witness:
  "valid_groups ''1991'' CHR ''M'' ''26'' ''WAV'' \<and>
   (\<exists>speaker gender age birth_year.
      parse_filename ''G_1991_M_26_st.WAV'' = (speaker, gender, Some age, Some birth_year) \<and>
      birth_year = 1991 \<and> age = 34 \<and> age + birth_year = 2025)"
proof -
  have h: "valid_groups ''1991'' CHR ''M'' ''26'' ''WAV''"
    by (simp add: valid_groups_def is_digit_def)
  have v: "int_of_digits ''1991'' = 1991"
    by (simp add: int_of_digits_def digit_val_def)
  show ?thesis
    using h parse_filename_age_birth_year [OF h, of "[]"] by (simp add: mk_name_def v)
qed

text \<open>
  The dot before the extension is the literal dot of the pattern (\<open>\\.\<close>), not the
  wildcard: a name with another character in its place is not accepted.
\<close>

lemma dot_is_literal: "parse_filename ''G_1991_M_26_stXWAV'' = (None, None, None, None)"
  by code_simp

section \<open>Claims about the extractor's table\<close>

text \<open>
  C3. The claim: when the scanned directory exists and holds no audio file, the
  extractor ends without error and returns an empty table with the seven columns. The
  code: \<open>records\<close> is empty, the frame built from it has no column, and selecting the
  column order raises \<open>KeyError\<close> for the six columns that only a record would have
  brought. The theorem runs the function on a folder with one text file.
\<close>

theorem process_database_no_audio_files:
  "process_database no_audio_fs ''data'' =
     ([FoundAudioFiles 0],
      Inl (KeyError [''file'', ''speaker'', ''gender'', ''age'', ''birth_year'', ''transcription'']))"
  by code_simp





text \<open>
  C6. In the table the extractor returns, the header is \<open>file\<close>, \<open>speaker\<close>, \<open>gender\<close>,
  \<open>age\<close>, \<open>birth_year\<close>, \<open>emotion\<close>, \<open>transcription\<close> in this order, every line has the
  value \<open>unknown\<close> under \<open>emotion\<close>, and \<open>file\<close> is the index, with one value for each row
  and no value twice (the names of a directory being distinct).
\<close>

theorem output_table_schema:
  assumes "fs data_folder = Present d" "distinct (listing d)"
    and "snd (process_database fs data_folder) = Inr df"
  shows "header df = [''file'', ''speaker'', ''gender'', ''age'', ''birth_year'', ''emotion'',
                      ''transcription''] \<and>
         (\<forall>l\<in>set (csv_lines df).
            length l = 7 \<and> cell_at (header df) l ''emotion'' = Some (Str ''unknown'')) \<and>
         (\<exists>vs. index_col df = Some (''file'', vs) \<and> length vs = length (rows df) \<and> distinct vs)"
proof -
  let ?ms = "filter matches_grammar (audio_files d)"
  note t = process_database_table [where fs = fs, OF assms(1,3)]
  have hd: "header df = [''file'', ''speaker'', ''gender'', ''age'', ''birth_year'', ''emotion'',
                        ''transcription'']"
    using header_table [where fs = fs, OF assms(1,3)] by (simp add: column_order_def)
  have lines: "length l = 7 \<and> cell_at (header df) l ''emotion'' = Some (Str ''unknown'')"
    if "l \<in> set (csv_lines df)" for l
  proof -
    from that obtain f where "f \<in> set ?ms" "l = file_line data_folder d f"
      unfolding t(5) by auto
    then show ?thesis
      unfolding hd by (simp add: file_line_def cell_at_def split: prod.splits)
  qed
  have "distinct ?ms"
    using distinct_audio_files [OF assms(2)] by simp
  then have "distinct (map (\<lambda>f. Str (relative_to_parent data_folder f)) ?ms)"
    by (simp add: distinct_map inj_on_def relative_to_parent_inj)
  with t(3,4) have "\<exists>vs. index_col df = Some (''file'', vs) \<and> length vs = length (rows df) \<and> distinct vs"
    by simp
  with hd lines show ?thesis by blast
qed

theorem output_table_schema_witness:
  "example_fs ''data'' = Present example_dir \<and> distinct (listing example_dir) \<and>
   snd (process_database example_fs ''data'') = Inr example_table \<and>
   header example_table = [''file'', ''speaker'', ''gender'', ''age'', ''birth_year'', ''emotion'',
                           ''transcription''] \<and>
   length (csv_lines example_table) = 3 \<and>
   list_all (\<lambda>l. length l = 7 \<and> cell_at (header example_table) l ''emotion'' = Some (Str ''unknown''))
     (csv_lines example_table) \<and>
   (\<exists>vs. index_col example_table = Some (''file'', vs) \<and>
      length vs = length (rows example_table) \<and> distinct vs)"
proof -
  have h1: "example_fs ''data'' = Present example_dir"
    by (simp add: example_fs_def)
  have h2: "distinct (listing example_dir)"
    by code_simp
  have h3: "snd (process_database example_fs ''data'') = Inr example_table"
    by (simp add: example_run)
  have n: "length (csv_lines example_table) = 3"
    by (simp add: csv_lines_def example_table_def)
  from output_table_schema [where fs = example_fs, OF h1 h2 h3] h1 h2 h3 n show ?thesis
    unfolding list_all_iff by blast
qed

text \<open>
  C7. The claim: for an audio file whose name matches and whose transcript is absent,
  or cannot be read, the record is still produced with the empty string as
  transcription, a warning is printed and the run does not abort. The code: a failure
  of reading is caught in \<open>read_transcription\<close>, but \<open>txt_file.exists()\<close> is called
  before it, outside any \<open>try\<close>; where the data folder may be listed and not searched,
  \<open>stat\<close> on the transcript is denied, also when there is no transcript, and the
  \<open>PermissionError\<close> ends the run. The theorem runs the function on such a folder, with
  one recording and no transcript.
\<close>

theorem process_database_locked_folder:
  "''G_1988_F_07_st.wav'' \<in> set (audio_files locked_dir) \<and>
   parse_filename ''G_1988_F_07_st.wav'' = (Some ''F_07'', Some ''female'', Some 37, Some 1988) \<and>
   with_suffix ''G_1988_F_07_st.wav'' ''.txt'' \<notin> set (listing locked_dir) \<and>
   process_database locked_fs ''data'' =
     ([FoundAudioFiles 1], Inl (PermissionError ''data/G_1988_F_07_st.txt''))"
  by code_simp

text \<open>
  Where \<open>stat\<close> is denied for no transcript, the code does what C7 says: the run ends
  with a table, the table has the line of the file with the empty string as
  transcription, and the warning was printed: that no transcript was found, or that the
  transcript could not be read.
\<close>

lemma transcript_absent_or_unreadable:
  assumes "fs data_folder = Present d" "filename \<in> set (audio_files d)"
    and "matches_grammar filename"
    and "\<forall>f\<in>set (audio_files d). \<not> denied d f"
    and "status d (with_suffix filename ''.txt'') = Absent \<or>
         status d (with_suffix filename ''.txt'') = Present Unreadable"
  shows "\<exists>df. snd (process_database fs data_folder) = Inr df \<and>
           (\<exists>s g a b. [Str (relative_to_parent data_folder filename), Str s, Str g, Num a, Num b,
                        Str ''unknown'', Str []] \<in> set (csv_lines df)) \<and>
           snd (transcript data_folder d filename) = [] \<and>
           (if status d (with_suffix filename ''.txt'') = Absent then NoTranscription filename
            else CouldNotRead (path_join data_folder (with_suffix filename ''.txt'')))
             \<in> set (fst (process_database fs data_folder))"
proof -
  let ?w = "if status d (with_suffix filename ''.txt'') = Absent then NoTranscription filename
            else CouldNotRead (path_join data_folder (with_suffix filename ''.txt''))"
  have tr: "transcript data_folder d filename = ([?w], [])"
    using assms(5) by (auto simp: transcript_def read_transcription_def)
  from assms(5) have st: "status d (with_suffix filename ''.txt'') \<noteq> Denied" by auto
  from assms(2,3) have ms: "filename \<in> set (filter matches_grammar (audio_files d))"
    by simp
  have "filter matches_grammar (audio_files d) \<noteq> []"
  proof
    assume "filter matches_grammar (audio_files d) = []"
    with ms show False by simp
  qed
  from process_database_succeeds [where fs = fs, OF assms(1,4) this]
  obtain df where df: "snd (process_database fs data_folder) = Inr df" by blast
  from file_line_parsed [OF assms(3), of data_folder d] obtain s g a b
    where "file_line data_folder d filename =
             [Str (relative_to_parent data_folder filename), Str s, Str g, Num a, Num b,
              Str ''unknown'', Str []]"
    by (auto simp: tr)
  with ms have line: "\<exists>s g a b. [Str (relative_to_parent data_folder filename), Str s, Str g,
                      Num a, Num b, Str ''unknown'', Str []] \<in> set (csv_lines df)"
    unfolding process_database_table(5) [where fs = fs, OF assms(1) df]
    by (metis (no_types, lifting) image_eqI list.set_map)
  from parse_filename_match [OF assms(3)] obtain s' g' a' b'
    where p: "parse_filename filename = (Some s', Some g', Some a', Some b')" by blast
  have "fst (loop_body data_folder d filename) = [?w]"
    by (simp add: loop_body_parsed [OF p st] tr)
  then have "?w \<in> set (fst (process_database fs data_folder))"
    unfolding process_database_log [where fs = fs, OF assms(1,4)]
    using loop_log_member [OF assms(2), of ?w data_folder d] by simp
  with df line tr show ?thesis by auto
qed

text \<open>
  C10. For every filename, \<open>parse_filename\<close> returns four \<open>None\<close> (the name does not
  match the grammar) or four values (it matches), never a mix; and in every line of
  the table the extractor returns, \<open>speaker\<close>, \<open>gender\<close>, \<open>age\<close> and \<open>birth_year\<close> hold
  a value.
\<close>

theorem parse_filename_all_or_nothing:
  "((parse_filename filename = (None, None, None, None) \<and> \<not> matches_grammar filename) \<or>
    ((\<exists>s g a b. parse_filename filename = (Some s, Some g, Some a, Some b)) \<and>
     matches_grammar filename)) \<and>
   (fs data_folder = Present d \<longrightarrow> snd (process_database fs data_folder) = Inr df \<longrightarrow>
      (\<forall>l\<in>set (csv_lines df). \<forall>k\<in>set [''speaker'', ''gender'', ''age'', ''birth_year''].
         \<exists>v. cell_at (header df) l k = Some v \<and> v \<noteq> Null))"
proof -
  have parse: "(parse_filename filename = (None, None, None, None) \<and> \<not> matches_grammar filename) \<or>
    ((\<exists>s g a b. parse_filename filename = (Some s, Some g, Some a, Some b)) \<and>
     matches_grammar filename)"
    using parse_filename_no_match [of filename] parse_filename_match [of filename] by blast
  have cells: "\<exists>v. cell_at (header df) l k = Some v \<and> v \<noteq> Null"
    if fs: "fs data_folder = Present d" and df: "snd (process_database fs data_folder) = Inr df"
      and l: "l \<in> set (csv_lines df)"
      and k: "k \<in> set [''speaker'', ''gender'', ''age'', ''birth_year'']"
    for l k
  proof -
    from l obtain f where "matches_grammar f" and lf: "l = file_line data_folder d f"
      unfolding process_database_table(5) [where fs = fs, OF fs df] by auto
    from file_line_parsed [OF this(1), of data_folder d] obtain s g a b
      where "l = [Str (relative_to_parent data_folder f), Str s, Str g, Num a, Num b,
                  Str ''unknown'', Str (snd (transcript data_folder d f))]"
      unfolding lf by blast
    with k show ?thesis
      unfolding header_table [where fs = fs, OF fs df]
      by (auto simp: cell_at_def column_order_def)
  qed
  from parse cells show ?thesis by blast
qed

theorem parse_filename_all_or_nothing_witness:
  "parse_filename ''random_file.WAV'' = (None, None, None, None) \<and>
   example_fs ''data'' = Present example_dir \<and>
   snd (process_database example_fs ''data'') = Inr example_table \<and>
   list_all (\<lambda>l. list_all (\<lambda>k. \<exists>v. cell_at (header example_table) l k = Some v \<and> v \<noteq> Null)
                      [''speaker'', ''gender'', ''age'', ''birth_year''])
     (csv_lines example_table)"
proof -
  have h0: "\<not> matches_grammar ''random_file.WAV''"
    unfolding matches_grammar_code by code_simp
  have h1: "example_fs ''data'' = Present example_dir"
    by (simp add: example_fs_def)
  have h2: "snd (process_database example_fs ''data'') = Inr example_table"
    by (simp add: example_run)
  from parse_filename_all_or_nothing [of "''random_file.WAV''" example_fs "''data''" example_dir
      example_table] h0 h1 h2
  show ?thesis unfolding list_all_iff by blast
qed

section \<open>Claims about the merger\<close>

text \<open>
  C9. When one of the ten key columns is missing from either table, the script ends
  with an error and writes no table: \<open>KeyError\<close> (the \<open>SchemaMismatch\<close> of the
  specification), which names missing key columns. No key is left out of the join.
\<close>

theorem missing_key_column_fails:
  assumes "\<not> set common_cols \<subseteq> set (columns all_predicted) \<or>
           \<not> set common_cols \<subseteq> set (columns segmented)"
  shows "\<exists>ks. merge_predictions all_predicted segmented = Inl (KeyError ks) \<and> ks \<noteq> [] \<and>
           set ks \<subseteq> set common_cols \<and>
           (\<forall>k\<in>set ks. k \<notin> set (columns all_predicted) \<or> k \<notin> set (columns segmented))"
proof (cases "set common_cols \<subseteq> set (columns segmented)")
  case False
  let ?ks = "filter (\<lambda>k. k \<notin> set (columns segmented)) common_cols"
  from False have "?ks \<noteq> []" by (auto simp: filter_empty_conv)
  moreover have "merge_predictions all_predicted segmented = Inl (KeyError ?ks)"
    by (rule merge_predictions_right_error [OF False])
  ultimately show ?thesis by auto
next
  case True
  with assms have left: "\<not> set common_cols \<subseteq> set (columns all_predicted)" by blast
  let ?ms = "filter (\<lambda>k. k \<notin> set (columns all_predicted)) common_cols"
  from left have "?ms \<noteq> []" by (auto simp: filter_empty_conv)
  then have "hd ?ms \<in> set ?ms" by (rule hd_in_set)
  then have "hd ?ms \<in> set common_cols \<and> hd ?ms \<notin> set (columns all_predicted)"
    unfolding set_filter by blast
  then have "hd ?ms \<in> set common_cols" "hd ?ms \<notin> set (columns all_predicted)" by blast+
  moreover have "merge_predictions all_predicted segmented = Inl (KeyError [hd ?ms])"
    by (rule merge_predictions_left_error [OF left True])
  ultimately show ?thesis by auto
qed

theorem missing_key_column_fails_witness:
  "\<not> set common_cols \<subseteq> set (columns no_text_table) \<and>
   merge_predictions no_text_table right_table = Inl (KeyError [''text'']) \<and>
   \<not> set common_cols \<subseteq> set (columns no_file_table) \<and>
   merge_predictions left_table no_file_table = Inl (KeyError [''file''])"
proof -
  have h1: "\<not> set common_cols \<subseteq> set (columns no_text_table)"
    by code_simp
  have h2: "\<not> set common_cols \<subseteq> set (columns no_file_table)"
    by code_simp
  have e1: "merge_predictions no_text_table right_table = Inl (KeyError [''text''])"
    by code_simp
  have e2: "merge_predictions left_table no_file_table = Inl (KeyError [''file''])"
    by code_simp
  from h1 have "\<exists>ks. merge_predictions no_text_table right_table = Inl (KeyError ks)"
    using missing_key_column_fails [of no_text_table right_table] by blast
  with h1 h2 e1 e2 show ?thesis by blast
qed

text \<open>
  C2. The merged table is the inner join on the tuple of all ten key columns. Every row
  of the result is a row of the first table followed by the other cells of a row of
  the second table, and the two rows hold the same value in each of the ten key
  columns, which is also the value the merged row holds; every such pair of rows is in
  the result. The key tuples of the result are those that occur in both tables: a row
  whose key tuple occurs in one table only has no row in the result. When no key
  tuple occurs in both tables the result has no row.
\<close>

theorem merge_is_inner_join_on_all_keys:
  assumes "wf_frame all_predicted" "wf_frame segmented"
    and "merge_predictions all_predicted segmented = Inr merged"
  shows "(\<forall>m\<in>set (rows merged).
            \<exists>l\<in>set (rows all_predicted). \<exists>r\<in>set (rows segmented).
              m = l @ non_key_cells common_cols (columns segmented) r \<and>
              (\<forall>k\<in>set common_cols.
                 \<exists>v. cell_at (columns all_predicted) l k = Some v \<and>
                     cell_at (columns segmented) r k = Some v \<and>
                     cell_at (columns merged) m k = Some v)) \<and>
         (\<forall>l\<in>set (rows all_predicted). \<forall>r\<in>set (rows segmented).
            key_tuple common_cols (columns segmented) r
              = key_tuple common_cols (columns all_predicted) l \<longrightarrow>
            l @ non_key_cells common_cols (columns segmented) r \<in> set (rows merged)) \<and>
         set (map (key_tuple common_cols (columns merged)) (rows merged))
           = set (map (key_tuple common_cols (columns all_predicted)) (rows all_predicted))
             \<inter> set (map (key_tuple common_cols (columns segmented)) (rows segmented)) \<and>
         (set (map (key_tuple common_cols (columns all_predicted)) (rows all_predicted))
            \<inter> set (map (key_tuple common_cols (columns segmented)) (rows segmented)) = {}
          \<longrightarrow> rows merged = [])"
proof -
  let ?A = all_predicted and ?B = segmented
  let ?kA = "key_tuple common_cols (columns ?A)"
  let ?kB = "key_tuple common_cols (columns ?B)"
  let ?kM = "key_tuple common_cols (columns merged)"
  note m = merge_predictions_Inr [OF assms(2,3)]
  have cols: "columns merged = left_labels ?A ?B @ right_labels ?A ?B"
    and rows: "rows merged = joined_rows ?A ?B"
    by (simp_all add: m(5))
  have keyM: "?kM (l @ x) = ?kA l" if "l \<in> set (rows ?A)" for l x
    unfolding cols
    by (rule merged_key_tuple [OF m(3) wf_frame_row [OF assms(1) that] m(1)])
  have 1: "\<exists>l\<in>set (rows ?A). \<exists>r\<in>set (rows ?B).
              m = l @ non_key_cells common_cols (columns ?B) r \<and>
              (\<forall>k\<in>set common_cols.
                 \<exists>v. cell_at (columns ?A) l k = Some v \<and> cell_at (columns ?B) r k = Some v \<and>
                     cell_at (columns merged) m k = Some v)"
    if "m \<in> set (rows merged)" for m
  proof -
    from that obtain l r where l: "l \<in> set (rows ?A)" and r: "r \<in> set (rows ?B)"
      and eq: "?kB r = ?kA l" and mm: "m = l @ non_key_cells common_cols (columns ?B) r"
      unfolding rows joined_rows_member by blast
    have "\<exists>v. cell_at (columns ?A) l k = Some v \<and> cell_at (columns ?B) r k = Some v \<and>
              cell_at (columns merged) m k = Some v" if k: "k \<in> set common_cols" for k
    proof -
      from key_tuple_cells [OF wf_frame_row [OF assms(1) l] wf_frame_row [OF assms(2) r]
          m(1,2) eq k]
      obtain v where v: "cell_at (columns ?A) l k = Some v" "cell_at (columns ?B) r k = Some v"
        by blast
      from k m(1) have "k \<in> set (columns ?A)" by blast
      from merged_key_cell [OF m(3) wf_frame_row [OF assms(1) l] k this]
      have "cell_at (columns merged) m k = cell_at (columns ?A) l k"
        unfolding cols mm .
      with v show ?thesis by simp
    qed
    with l r mm show ?thesis by blast
  qed
  have 2: "l @ non_key_cells common_cols (columns ?B) r \<in> set (rows merged)"
    if "l \<in> set (rows ?A)" "r \<in> set (rows ?B)" "?kB r = ?kA l" for l r
    unfolding rows joined_rows_member using that by blast
  have 3: "set (map ?kM (rows merged)) = set (map ?kA (rows ?A)) \<inter> set (map ?kB (rows ?B))"
  proof (rule set_eqI)
    fix t
    show "t \<in> set (map ?kM (rows merged))
            \<longleftrightarrow> t \<in> set (map ?kA (rows ?A)) \<inter> set (map ?kB (rows ?B))"
    proof
      assume "t \<in> set (map ?kM (rows merged))"
      then obtain m where "m \<in> set (rows merged)" and t: "t = ?kM m" by auto
      then obtain l r where l: "l \<in> set (rows ?A)" and r: "r \<in> set (rows ?B)"
        and eq: "?kB r = ?kA l" and mm: "m = l @ non_key_cells common_cols (columns ?B) r"
        unfolding rows joined_rows_member by blast
      from keyM [OF l] have "t = ?kA l" unfolding t mm .
      with l r eq show "t \<in> set (map ?kA (rows ?A)) \<inter> set (map ?kB (rows ?B))"
        by (metis IntI image_eqI list.set_map)
    next
      assume "t \<in> set (map ?kA (rows ?A)) \<inter> set (map ?kB (rows ?B))"
      then obtain l r where l: "l \<in> set (rows ?A)" "t = ?kA l"
        and r: "r \<in> set (rows ?B)" "t = ?kB r" by auto
      then have "l @ non_key_cells common_cols (columns ?B) r \<in> set (rows merged)"
        by (intro 2) simp_all
      moreover have "?kM (l @ non_key_cells common_cols (columns ?B) r) = t"
        using keyM [OF l(1)] l(2) by simp
      ultimately show "t \<in> set (map ?kM (rows merged))"
        by (metis image_eqI list.set_map)
    qed
  qed
  have 4: "rows merged = []"
    if "set (map ?kA (rows ?A)) \<inter> set (map ?kB (rows ?B)) = {}"
  proof -
    from that 3 have "set (map ?kM (rows merged)) = {}" by simp
    then show ?thesis by simp
  qed
  from 1 2 3 4 show ?thesis by blast
qed

theorem merge_is_inner_join_on_all_keys_witness:
  "wf_frame left_table \<and> wf_frame right_table \<and>
   merge_predictions left_table right_table =
     Inr \<lparr>columns = common_cols @ [''linguistic'', ''acoustic''],
          rows = [replicate 10 0 @ [1, 7], replicate 10 0 @ [1, 8],
                  replicate 10 0 @ [2, 7], replicate 10 0 @ [2, 8]],
          index_col = None\<rparr> \<and>
   set (map (key_tuple common_cols (columns left_table)) (rows left_table))
     \<inter> set (map (key_tuple common_cols (columns right_table)) (rows right_table))
     = {replicate 10 (Some 0)} \<and>
   wf_frame (left_table\<lparr>rows := drop 2 (rows left_table)\<rparr>) \<and>
   set (map (key_tuple common_cols (columns left_table)) (drop 2 (rows left_table)))
     \<inter> set (map (key_tuple common_cols (columns right_table)) (rows right_table)) = {} \<and>
   merge_predictions (left_table\<lparr>rows := drop 2 (rows left_table)\<rparr>) right_table =
     Inr \<lparr>columns = common_cols @ [''linguistic'', ''acoustic''], rows = [], index_col = None\<rparr>"
proof -
  let ?M = "\<lparr>columns = common_cols @ [''linguistic'', ''acoustic''],
             rows = [replicate 10 0 @ [1, 7], replicate 10 0 @ [1, 8],
                     replicate 10 0 @ [2, 7], replicate 10 0 @ [2 :: nat, 8]],
             index_col = None\<rparr>"
  let ?L = "left_table\<lparr>rows := drop 2 (rows left_table)\<rparr>"
  let ?E = "\<lparr>columns = common_cols @ [''linguistic'', ''acoustic''], rows = [] :: nat list list,
             index_col = None\<rparr>"
  have h1: "wf_frame left_table" by code_simp
  have h2: "wf_frame right_table" by code_simp
  have h3: "merge_predictions left_table right_table = Inr ?M" by code_simp
  have k: "set (map (key_tuple common_cols (columns left_table)) (rows left_table))
     \<inter> set (map (key_tuple common_cols (columns right_table)) (rows right_table))
     = {replicate 10 (Some 0)}" by code_simp
  have g1: "wf_frame ?L" by code_simp
  have g3: "merge_predictions ?L right_table = Inr ?E" by code_simp
  have d: "set (map (key_tuple common_cols (columns left_table)) (drop 2 (rows left_table)))
     \<inter> set (map (key_tuple common_cols (columns right_table)) (rows right_table)) = {}"
    by code_simp
  from merge_is_inner_join_on_all_keys [OF g1 h2 g3] d have "rows ?E = []"
    by simp
  with h1 h2 h3 k g1 d g3 show ?thesis by blast
qed

text \<open>
  C8. The claim: for two tables with the same content in the key columns and no column
  of their own in common, the merged table has as many rows as either table and
  \<open>10 + (columns of A outside the keys) + (columns of B outside the keys)\<close> columns.
  An inner join pairs every row with every row of the other table that has its key
  tuple, so two tables that hold one key tuple twice give four rows, not two. As
  amended: when, moreover, no key tuple occurs twice in a table, the merged table has
  as many rows as either table; the count of the columns is as claimed.
\<close>

theorem merged_shape:
  assumes "wf_frame all_predicted" "wf_frame segmented"
    and "set common_cols \<subseteq> set (columns all_predicted)"
    and "set common_cols \<subseteq> set (columns segmented)"
    and "set (unique_cols all_predicted) \<inter> set (unique_cols segmented) = {}"
    and "map (key_tuple common_cols (columns all_predicted)) (rows all_predicted)
           = map (key_tuple common_cols (columns segmented)) (rows segmented)"
    and "distinct (map (key_tuple common_cols (columns all_predicted)) (rows all_predicted))"
  shows "\<exists>merged. merge_predictions all_predicted segmented = Inr merged \<and>
           length (rows merged) = length (rows all_predicted) \<and>
           length (rows merged) = length (rows segmented) \<and>
           length (columns merged)
             = 10 + length (unique_cols all_predicted) + length (unique_cols segmented)"
proof -
  let ?A = all_predicted and ?B = segmented
  note lab = labels_disjoint_unique [OF assms(5)]
  have dl: "distinct (left_labels ?A ?B)"
    unfolding lab using assms(1) by (rule wf_frame_distinct)
  have dr: "distinct (right_labels ?A ?B)"
    unfolding lab unique_cols_def using wf_frame_distinct [OF assms(2)] by simp
  have run: "merge_predictions ?A ?B
               = Inr \<lparr>columns = columns ?A @ unique_cols ?B, rows = joined_rows ?A ?B,
                      index_col = None\<rparr>"
    using merge_predictions_ok [OF assms(2,3,4)] dl dr by (simp add: lab)
  have n: "length (joined_rows ?A ?B) = length (rows ?A)"
    by (rule length_joined_rows_distinct [OF assms(6,7)])
  have "length (rows ?A) = length (map (key_tuple common_cols (columns ?A)) (rows ?A))"
    by simp
  also have "\<dots> = length (rows ?B)"
    unfolding assms(6) by simp
  finally have same: "length (rows ?A) = length (rows ?B)" .
  have c: "length (columns ?A) = 10 + length (unique_cols ?A)"
    by (rule length_columns_keys [OF wf_frame_distinct [OF assms(1)] assms(3)])
  from run n same c show ?thesis by simp
qed

theorem merged_shape_witness:
  "wf_frame (left_table\<lparr>rows := tl (rows left_table)\<rparr>) \<and>
   wf_frame (right_table\<lparr>rows := [8 # replicate 10 0, 9 # replicate 10 5]\<rparr>) \<and>
   merge_predictions (left_table\<lparr>rows := tl (rows left_table)\<rparr>)
       (right_table\<lparr>rows := [8 # replicate 10 0, 9 # replicate 10 5]\<rparr>)
     = Inr \<lparr>columns = common_cols @ [''linguistic'', ''acoustic''],
            rows = [replicate 10 0 @ [2, 8], replicate 10 5 @ [3, 9]],
            index_col = None\<rparr> \<and>
   (\<exists>merged. merge_predictions (left_table\<lparr>rows := tl (rows left_table)\<rparr>)
                (right_table\<lparr>rows := [8 # replicate 10 0, 9 # replicate 10 5]\<rparr>) = Inr merged \<and>
      length (rows merged) = 2 \<and> length (columns merged) = 12)"
proof -
  let ?A = "left_table\<lparr>rows := tl (rows left_table)\<rparr>"
  let ?B = "right_table\<lparr>rows := [8 # replicate 10 0, 9 # replicate 10 5]\<rparr>"
  have h1: "wf_frame ?A" by code_simp
  have h2: "wf_frame ?B" by code_simp
  have h3: "set common_cols \<subseteq> set (columns ?A)" by code_simp
  have h4: "set common_cols \<subseteq> set (columns ?B)" by code_simp
  have h5: "set (unique_cols ?A) \<inter> set (unique_cols ?B) = {}" by code_simp
  have h6: "map (key_tuple common_cols (columns ?A)) (rows ?A)
              = map (key_tuple common_cols (columns ?B)) (rows ?B)" by code_simp
  have h7: "distinct (map (key_tuple common_cols (columns ?A)) (rows ?A))" by code_simp
  have r: "merge_predictions ?A ?B
             = Inr \<lparr>columns = common_cols @ [''linguistic'', ''acoustic''],
                    rows = [replicate 10 0 @ [2, 8], replicate 10 5 @ [3, 9]],
                    index_col = None\<rparr>" by code_simp
  have n: "length (rows ?A) = 2" "10 + length (unique_cols ?A) + length (unique_cols ?B) = 12"
    by code_simp+
  from merged_shape [OF h1 h2 h3 h4 h5 h6 h7]
  have "\<exists>merged. merge_predictions ?A ?B = Inr merged \<and>
          length (rows merged) = 2 \<and> length (columns merged) = 12"
    unfolding n by blast
  with h1 h2 r show ?thesis by blast
qed

text \<open>
  C8, as first stated, fails: \<open>dup_left\<close> and \<open>dup_right\<close> satisfy what the claim asks
  of the two tables and have two rows each; the merged table has four.
\<close>

theorem merged_row_count_duplicate_keys:
  "wf_frame dup_left \<and> wf_frame dup_right \<and>
   set common_cols \<subseteq> set (columns dup_left) \<and> set common_cols \<subseteq> set (columns dup_right) \<and>
   map (key_tuple common_cols (columns dup_left)) (rows dup_left)
     = map (key_tuple common_cols (columns dup_right)) (rows dup_right) \<and>
   set (unique_cols dup_left) \<inter> set (unique_cols dup_right) = {} \<and>
   merge_predictions dup_left dup_right = Inr dup_merged \<and>
   length (rows dup_left) = 2 \<and> length (rows dup_right) = 2 \<and>
   length (rows dup_merged) = 4 \<and>
   length (rows dup_merged) \<noteq> length (rows dup_left)"
  by code_simp

end
